theory Spec2Isabelle
  imports Main "HOL-Library.Sublist"
begin

section \<open>Strings of the source language\<close>

text \<open>
  A Python \<open>str\<close> is a sequence of Unicode code points, and \<open>len\<close>, indexing,
  slicing and \<open>find\<close> all count code points. A character is therefore modelled by
  its code point (a natural number) and a string by the list of its code points.
  \<open>str\<close> turns an ASCII literal of the theory into such a string.
\<close>

type_synonym pychar = nat
type_synonym pystr = "pychar list"

abbreviation cp :: "char \<Rightarrow> pychar" where
  "cp c \<equiv> of_char c"

definition str :: "string \<Rightarrow> pystr" where
  "str s = map cp s"

text \<open>
  The characters for which \<open>str.isspace()\<close> holds; the class \<open>\s\<close> of a \<open>re\<close>
  pattern over \<open>str\<close> is the same set.
\<close>

definition is_space :: "pychar \<Rightarrow> bool" where
  "is_space c \<longleftrightarrow>
     (9 \<le> c \<and> c \<le> 13) \<or> (28 \<le> c \<and> c \<le> 32) \<or> c = 133 \<or> c = 160 \<or> c = 5760 \<or>
     (8192 \<le> c \<and> c \<le> 8202) \<or> c = 8232 \<or> c = 8233 \<or> c = 8239 \<or> c = 8287 \<or>
     c = 12288"

text \<open>\<open>s.strip()\<close>: leading and trailing whitespace removed.\<close>

definition strip :: "pystr \<Rightarrow> pystr" where
  "strip s = rev (dropWhile is_space (rev (dropWhile is_space s)))"

text \<open>
  \<open>s.find(sub)\<close>: the lowest index at which \<open>sub\<close> occurs in \<open>s\<close>. Python
  returns \<open>-1\<close> when there is none; the model returns \<open>None\<close> there. The empty
  string occurs at index 0 of every string.
\<close>

fun find_from :: "'a list \<Rightarrow> 'a list \<Rightarrow> nat \<Rightarrow> nat option" where
  "find_from sub [] i = (if sub = [] then Some i else None)"
| "find_from sub (x # xs) i =
     (if prefix sub (x # xs) then Some i else find_from sub xs (Suc i))"

definition str_find :: "'a list \<Rightarrow> 'a list \<Rightarrow> nat option" where
  "str_find s sub = find_from sub s 0"

text \<open>\<open>s[a:b]\<close> for non-negative \<open>a\<close> and \<open>b\<close>; a slice never fails, it is cut to the string.\<close>

definition slice :: "'a list \<Rightarrow> nat \<Rightarrow> nat \<Rightarrow> 'a list" where
  "slice s a b = take (b - a) (drop a s)"

text \<open>Indexing a list with a non-negative index raises \<open>IndexError\<close> out of range.\<close>

datatype py_error = IndexError

definition index :: "'a list \<Rightarrow> nat \<Rightarrow> py_error + 'a" where
  "index xs i = (if i < length xs then Inr (xs ! i) else Inl IndexError)"

section \<open>The annotation pattern\<close>

text \<open>
  \<open>re.match(r'\s*\(https?://[^\)]+\)', s)\<close> followed by \<open>len(m.group())\<close>: the length
  of the match at the start of \<open>s\<close>, or \<open>None\<close> when the pattern does not match there.
  Every greedy item of this pattern is followed by a character outside its own class
  (\<open>\s*\<close> by \<open>(\<close>, \<open>s?\<close> by \<open>:\<close>, \<open>[^\)]+\<close> by \<open>)\<close>), so a shorter choice
  for an item can never make the rest match: the match is the greedy one or there is none.
\<close>

definition url_match :: "pystr \<Rightarrow> nat option" where
  "url_match s =
     (let ws = takeWhile is_space s;
          r1 = dropWhile is_space s
      in if \<not> prefix (str ''(http'') r1 then None
         else
           let r2 = drop 5 r1;
               opt_s = (if prefix (str ''s'') r2 then 1 else 0);
               r3 = drop opt_s r2
           in if \<not> prefix (str ''://'') r3 then None
              else
                let r4 = drop 3 r3;
                    body = takeWhile (\<lambda>c. c \<noteq> cp CHR '')'') r4;
                    r5 = dropWhile (\<lambda>c. c \<noteq> cp CHR '')'') r4
                in if body = [] \<or> r5 = [] then None
                   else Some (length ws + 5 + opt_s + 3 + length body + 1))"

section \<open>build_position_map\<close>

text \<open>
  The \<open>while\<close> loop of \<open>build_position_map\<close>, with its three variables \<open>i\<close>,
  \<open>stripped\<close> and \<open>position_map\<close>. The read \<open>text[i]\<close> is guarded by \<open>i < len(text)\<close>.
\<close>

function build_loop :: "pystr \<Rightarrow> nat \<Rightarrow> pystr \<Rightarrow> nat list \<Rightarrow> pystr \<times> nat list" where
  "build_loop text i stripped position_map =
     (if i < length text then
        (case url_match (drop i text) of
           Some n \<Rightarrow> build_loop text (i + n) stripped position_map
         | None \<Rightarrow> build_loop text (i + 1) (stripped @ [text ! i]) (position_map @ [i]))
      else (stripped, position_map))"
  by pat_completeness auto
termination
  by (relation "measure (\<lambda>(text, i, stripped, position_map). length text - i)")
     (auto simp: url_match_def Let_def split: if_splits)

definition build_position_map :: "pystr \<Rightarrow> pystr \<times> nat list" where
  "build_position_map text = build_loop text 0 [] []"

section \<open>Issues, ranges and segments\<close>

text \<open>
  An issue is a dictionary read with \<open>issue.get(key, default)\<close>: each key may be
  missing, which is \<open>None\<close> here. The keys are \<open>type\<close>, \<open>excerpt\<close>, \<open>issue\<close>
  and \<open>sources\<close>.
\<close>

record issue =
  i_type :: "pystr option"
  i_excerpt :: "pystr option"
  i_issue :: "pystr option"
  i_sources :: "pystr list option"

text \<open>\<open>issue.get('type', 'questionable')\<close> and its siblings.\<close>

definition get_type :: "issue \<Rightarrow> pystr" where
  "get_type issue = (case i_type issue of None \<Rightarrow> str ''questionable'' | Some t \<Rightarrow> t)"

definition get_excerpt :: "issue \<Rightarrow> pystr" where
  "get_excerpt issue = (case i_excerpt issue of None \<Rightarrow> [] | Some e \<Rightarrow> e)"

definition get_issue :: "issue \<Rightarrow> pystr" where
  "get_issue issue = (case i_issue issue of None \<Rightarrow> str ''No explanation'' | Some e \<Rightarrow> e)"

definition get_sources :: "issue \<Rightarrow> pystr list" where
  "get_sources issue = (case i_sources issue of None \<Rightarrow> [] | Some l \<Rightarrow> l)"

text \<open>An entry of \<open>highlight_ranges\<close>.\<close>

record highlight_range =
  hr_start :: nat
  hr_end :: nat
  issue_index :: nat
  issue_type :: pystr
  explanation :: pystr
  sources :: "pystr list"

text \<open>An entry of \<open>segments\<close>.\<close>

record segment =
  seg_start :: nat
  seg_end :: nat
  seg_text :: pystr
  seg_issues :: "highlight_range list"

section \<open>highlight_text: filtering the issues\<close>

text \<open>
  The first loop of \<open>highlight_text\<close>: an issue is skipped when its type is switched
  off; a kept issue carries its position in \<open>issues\<close> as \<open>_original_index\<close>.
\<close>

definition hidden :: "bool \<Rightarrow> bool \<Rightarrow> bool \<Rightarrow> pystr \<Rightarrow> bool" where
  "hidden show_misleading show_incomplete show_questionable t \<longleftrightarrow>
     (t = str ''misleading'' \<and> \<not> show_misleading) \<or>
     (t = str ''incomplete'' \<and> \<not> show_incomplete) \<or>
     (t = str ''questionable'' \<and> \<not> show_questionable)"

definition filter_issues ::
  "issue list \<Rightarrow> bool \<Rightarrow> bool \<Rightarrow> bool \<Rightarrow> (nat \<times> issue) list" where
  "filter_issues issues show_misleading show_incomplete show_questionable =
     filter (\<lambda>(idx, issue).
               \<not> hidden show_misleading show_incomplete show_questionable (get_type issue))
       (enumerate 0 issues)"

section \<open>highlight_text: locating an excerpt\<close>

text \<open>
  The body of the second loop from \<open>start_pos = None\<close> to the end of the \<open>else\<close>
  branch, for a stripped, non-empty \<open>excerpt\<close>. It leaves \<open>start_pos\<close> and
  \<open>end_pos\<close>, each of which may still be \<open>None\<close>. The two reads of \<open>pos_map\<close> may
  raise.
\<close>

definition locate ::
  "pystr \<Rightarrow> pystr \<Rightarrow> nat list \<Rightarrow> pystr \<Rightarrow> py_error + (nat option \<times> nat option)" where
  "locate original_text original_stripped pos_map excerpt =
     (case str_find original_text excerpt of
        Some pos \<Rightarrow> Inr (Some pos, Some (pos + length excerpt))
      | None \<Rightarrow>
          (let excerpt_stripped = fst (build_position_map excerpt) in
           case str_find original_stripped excerpt_stripped of
             Some pos \<Rightarrow>
               if length excerpt_stripped > 0 then
                 (case index pos_map pos of
                    Inl e \<Rightarrow> Inl e
                  | Inr start_pos \<Rightarrow>
                      (let end_pos_stripped =
                             min (pos + length excerpt_stripped) (length pos_map)
                       in if end_pos_stripped > 0 \<and> end_pos_stripped \<le> length pos_map then
                            (case index pos_map (end_pos_stripped - 1) of
                               Inl e \<Rightarrow> Inl e
                             | Inr v \<Rightarrow> Inr (Some start_pos, Some (v + 1)))
                          else Inr (Some start_pos, None)))
               else Inr (None, None)
           | None \<Rightarrow> Inr (None, None)))"

text \<open>
  The second loop of \<open>highlight_text\<close>, over \<open>filtered_issues\<close>, with
  \<open>highlight_ranges\<close> as its accumulator. An exception ends the loop.
\<close>

fun find_ranges ::
  "pystr \<Rightarrow> pystr \<Rightarrow> nat list \<Rightarrow> (nat \<times> issue) list \<Rightarrow> highlight_range list \<Rightarrow>
   py_error + highlight_range list" where
  "find_ranges original_text original_stripped pos_map [] highlight_ranges =
     Inr highlight_ranges"
| "find_ranges original_text original_stripped pos_map ((original_idx, issue) # rest)
     highlight_ranges =
     (let excerpt = strip (get_excerpt issue) in
      if excerpt = [] then
        find_ranges original_text original_stripped pos_map rest highlight_ranges
      else
        (case locate original_text original_stripped pos_map excerpt of
           Inl e \<Rightarrow> Inl e
         | Inr (Some start_pos, Some end_pos) \<Rightarrow>
             find_ranges original_text original_stripped pos_map rest
               (highlight_ranges @
                [\<lparr>hr_start = start_pos, hr_end = end_pos, issue_index = original_idx,
                  issue_type = get_type issue, explanation = get_issue issue,
                  sources = get_sources issue\<rparr>])
         | Inr _ \<Rightarrow>
             find_ranges original_text original_stripped pos_map rest highlight_ranges))"

section \<open>highlight_text: building the segments\<close>

text \<open>
  \<open>position_issues\<close> is a dictionary from a position to the list of the ranges that
  hold it, in the order in which the ranges are visited.
\<close>

definition add_position ::
  "highlight_range \<Rightarrow> nat \<Rightarrow> (nat \<rightharpoonup> highlight_range list) \<Rightarrow>
   (nat \<rightharpoonup> highlight_range list)" where
  "add_position hr pos position_issues =
     (let d = (if pos \<notin> dom position_issues then position_issues(pos \<mapsto> [])
               else position_issues)
      in d(pos \<mapsto> the (d pos) @ [hr]))"

definition build_position_issues ::
  "highlight_range list \<Rightarrow> (nat \<rightharpoonup> highlight_range list)" where
  "build_position_issues highlight_ranges =
     fold (\<lambda>hr. fold (add_position hr) [hr_start hr..<hr_end hr]) highlight_ranges Map.empty"

text \<open>\<open>position_issues.get(start, [])\<close>.\<close>

definition get_issues :: "(nat \<rightharpoonup> highlight_range list) \<Rightarrow> nat \<Rightarrow> highlight_range list" where
  "get_issues position_issues start =
     (case position_issues start of None \<Rightarrow> [] | Some l \<Rightarrow> l)"

text \<open>\<open>sorted(set(...))\<close>: the distinct boundaries in ascending order.\<close>

definition boundaries :: "pystr \<Rightarrow> highlight_range list \<Rightarrow> nat list" where
  "boundaries original_text highlight_ranges =
     sort (remdups ([0, length original_text] @ map hr_start highlight_ranges @
                    map hr_end highlight_ranges))"

text \<open>
  The loop over \<open>range(len(positions) - 1)\<close>; both reads of \<open>positions\<close> are in range
  by the bound of the loop.
\<close>

definition build_segments :: "pystr \<Rightarrow> highlight_range list \<Rightarrow> segment list" where
  "build_segments original_text highlight_ranges =
     (let position_issues = build_position_issues highlight_ranges;
          positions = boundaries original_text highlight_ranges
      in map (\<lambda>i. let start = positions ! i; end = positions ! (i + 1)
                   in \<lparr>seg_start = start, seg_end = end,
                       seg_text = slice original_text start end,
                       seg_issues = get_issues position_issues start\<rparr>)
           [0..<length positions - 1])"

text \<open>
  \<open>highlight_text\<close> from \<open>build_position_map(original_text)\<close> to the end of the loop that
  fills \<open>segments\<close>, for the non-empty \<open>filtered_issues\<close>. \<open>list.sort\<close> is stable, as
  \<open>sort_key\<close> is.
\<close>

definition compute_segments :: "pystr \<Rightarrow> (nat \<times> issue) list \<Rightarrow> py_error + segment list" where
  "compute_segments original_text filtered_issues =
     (let (original_stripped, pos_map) = build_position_map original_text in
      case find_ranges original_text original_stripped pos_map filtered_issues [] of
        Inl e \<Rightarrow> Inl e
      | Inr highlight_ranges \<Rightarrow>
          Inr (build_segments original_text (sort_key hr_start highlight_ranges)))"

section \<open>highlight_text: building the HTML\<close>

text \<open>\<open>str(n)\<close> for a non-negative integer, \<open>sep.join(parts)\<close>, and \<open>s.replace(c, new)\<close>
  for a one-character \<open>c\<close>.\<close>

fun str_of_nat :: "nat \<Rightarrow> pystr" where
  "str_of_nat n =
     (if n < 10 then [cp CHR ''0'' + n]
      else str_of_nat (n div 10) @ [cp CHR ''0'' + n mod 10])"

fun join :: "'a list \<Rightarrow> 'a list list \<Rightarrow> 'a list" where
  "join sep [] = []"
| "join sep [x] = x"
| "join sep (x # y # ys) = x @ sep @ join sep (y # ys)"

definition replace_char :: "pychar \<Rightarrow> pystr \<Rightarrow> pystr \<Rightarrow> pystr" where
  "replace_char c new s = concat (map (\<lambda>x. if x = c then new else [x]) s)"

text \<open>The characters that a literal of the theory cannot hold.\<close>

definition nl :: pystr where
  "nl = [10]"

definition dq :: pystr where
  "dq = [34]"

definition sq :: pystr where
  "sq = [39]"

text \<open>The dictionaries \<open>colors\<close> and \<open>border_colors\<close>, read with \<open>get\<close> and a default.\<close>

definition colors :: "(pystr \<times> pystr) list" where
  "colors =
     [(str ''misleading'', str ''#ffcccc''),
      (str ''questionable'', str ''#fff4cc''),
      (str ''incomplete'', str ''#cce5ff'')]"

definition border_colors :: "(pystr \<times> pystr) list" where
  "border_colors =
     [(str ''misleading'', str ''#ff0000''),
      (str ''questionable'', str ''#ffa500''),
      (str ''incomplete'', str ''#0066cc'')]"

definition dict_get :: "('k \<times> 'v) list \<Rightarrow> 'k \<Rightarrow> 'v \<Rightarrow> 'v" where
  "dict_get d k dflt = (case map_of d k of None \<Rightarrow> dflt | Some v \<Rightarrow> v)"

text \<open>
  The lines that one entry of \<open>issues_data\<close> adds to \<open>tooltip_parts\<close>; \<open>n\<close> is
  \<open>len(issues_data)\<close>. \<open>str.title\<close> depends on the case tables of Unicode and is a
  parameter, \<open>title\<close>.
\<close>

definition tooltip_parts ::
  "(pystr \<Rightarrow> pystr) \<Rightarrow> nat \<Rightarrow> nat \<times> highlight_range \<Rightarrow> pystr list" where
  "tooltip_parts title n p =
     (case p of (idx, issue_data) \<Rightarrow>
        [str ''Issue #'' @ str_of_nat (issue_index issue_data + 1) @ str '' ('' @
           title (issue_type issue_data) @ str ''):'',
         explanation issue_data] @
        (if sources issue_data \<noteq> [] then
           (nl @ str ''Sources:'') #
           map (\<lambda>(src_idx, src). str_of_nat src_idx @ str ''. '' @ src)
             (enumerate 1 (sources issue_data))
         else []) @
        (if idx < n - 1 then [nl @ str ''---'' @ nl] else []))"

text \<open>What the \<open>else\<close> branch of the last loop computes for a segment with issues.\<close>

record mark =
  issue_ids :: pystr
  escaped_tooltip :: pystr
  badge_text :: pystr
  badge_type :: pystr
  bg_color :: pystr
  border_style :: pystr
  mark_text :: pystr

definition make_mark :: "(pystr \<Rightarrow> pystr) \<Rightarrow> segment \<Rightarrow> mark" where
  "make_mark title segment =
     (let issues_data = seg_issues segment;
          primary = hd issues_data;
          all_issue_indices = map (\<lambda>issue_data. str_of_nat (issue_index issue_data)) issues_data;
          tooltip_text =
            join nl (concat (map (tooltip_parts title (length issues_data))
                               (enumerate 0 issues_data)));
          border_colors_list =
            map (\<lambda>iss. dict_get border_colors (issue_type iss) (str ''#333'')) (tl issues_data)
      in \<lparr>issue_ids = join (str '','') all_issue_indices,
          escaped_tooltip =
            replace_char 39 (str ''&#39;'') (replace_char 34 (str ''&quot;'') tooltip_text),
          badge_text =
            (if length issues_data = 1 then str_of_nat (issue_index primary + 1)
             else str_of_nat (length issues_data)),
          badge_type = (if length issues_data = 1 then str ''single'' else str ''multiple''),
          bg_color = dict_get colors (issue_type primary) (str ''#fff4cc''),
          border_style =
            (if length issues_data > 1 \<and> border_colors_list \<noteq> []
             then str ''2px solid '' @ hd border_colors_list
             else str ''2px solid transparent''),
          mark_text = seg_text segment\<rparr>)"

text \<open>The formatted string of a mark; every line of it but the first starts with 16 spaces.\<close>

definition mark_html :: "mark \<Rightarrow> pystr" where
  "mark_html m =
     (let ind = nl @ replicate 16 (cp CHR '' '') in
      str ''<mark'' @
      ind @ str ''class='' @ dq @ str ''fact-issue'' @ dq @
      ind @ str ''data-issue-ids='' @ dq @ issue_ids m @ dq @
      ind @ str ''data-tooltip='' @ dq @ escaped_tooltip m @ dq @
      ind @ str ''data-badge-text='' @ dq @ badge_text m @ dq @
      ind @ str ''data-badge-type='' @ dq @ badge_type m @ dq @
      ind @ str ''style='' @ dq @ str ''background-color: '' @ bg_color m @
        str ''; color: #000; padding: 2px 4px; border-radius: 3px; cursor: pointer; border: '' @
        border_style m @ str ''; transition: all 0.2s ease;'' @ dq @
      ind @ str ''>'' @ mark_text m @ str ''</mark>'')"

text \<open>One round of the last loop: what a segment appends to \<open>html_parts\<close>.\<close>

definition html_part :: "(pystr \<Rightarrow> pystr) \<Rightarrow> segment \<Rightarrow> pystr" where
  "html_part title segment =
     (if seg_issues segment = [] then seg_text segment
      else mark_html (make_mark title segment))"

section \<open>highlight_text\<close>

definition highlight_text ::
  "(pystr \<Rightarrow> pystr) \<Rightarrow> pystr \<Rightarrow> issue list \<Rightarrow> bool \<Rightarrow> bool \<Rightarrow> bool \<Rightarrow> py_error + pystr" where
  "highlight_text title original_text issues show_misleading show_incomplete show_questionable =
     (if issues = [] then Inr original_text
      else
        let filtered_issues =
              filter_issues issues show_misleading show_incomplete show_questionable
        in if filtered_issues = [] then Inr original_text
           else
             (case compute_segments original_text filtered_issues of
                Inl e \<Rightarrow> Inl e
              | Inr segments \<Rightarrow> Inr (concat (map (html_part title) segments))))"

section \<open>The caller's list of issues\<close>

text \<open>
  After the call of \<open>highlight_text\<close>, the caller lists the issues of the same list
  \<open>issues\<close> under ``Issues Found'', in the order of \<open>sorted_issues\<close>.
\<close>

definition type_order :: "(pystr \<times> nat) list" where
  "type_order = [(str ''misleading'', 0), (str ''incomplete'', 1), (str ''questionable'', 2)]"

definition sorted_issues :: "issue list \<Rightarrow> (nat \<times> issue) list" where
  "sorted_issues issues =
     sort_key (\<lambda>x. dict_get type_order (get_type (snd x)) 3) (enumerate 0 issues)"

section \<open>Notions of the specification\<close>

text \<open>\<open>sub\<close> occurs in \<open>s\<close> at offset \<open>q\<close>: \<open>s[q : q + len(sub)] == sub\<close>.\<close>

definition occurs_at :: "'a list \<Rightarrow> 'a list \<Rightarrow> nat \<Rightarrow> bool" where
  "occurs_at s sub q \<longleftrightarrow> slice s q (q + length sub) = sub"

text \<open>A range covers a position.\<close>

definition covers :: "nat \<Rightarrow> highlight_range \<Rightarrow> bool" where
  "covers pos hr \<longleftrightarrow> hr_start hr \<le> pos \<and> pos < hr_end hr"

text \<open>
  The range that one round of the second loop appends for an entry of
  \<open>filtered_issues\<close>, if it appends one.
\<close>

definition located_range ::
  "pystr \<Rightarrow> pystr \<Rightarrow> nat list \<Rightarrow> nat \<times> issue \<Rightarrow> highlight_range option" where
  "located_range original_text original_stripped pos_map p =
     (case p of (original_idx, issue) \<Rightarrow>
        (let excerpt = strip (get_excerpt issue) in
         if excerpt = [] then None
         else
           (case locate original_text original_stripped pos_map excerpt of
              Inr (Some start_pos, Some end_pos) \<Rightarrow>
                Some \<lparr>hr_start = start_pos, hr_end = end_pos, issue_index = original_idx,
                      issue_type = get_type issue, explanation = get_issue issue,
                      sources = get_sources issue\<rparr>
            | _ \<Rightarrow> None)))"

text \<open>
  Segments partition a text: the first starts at 0, each next one starts where the one
  before it ends, the last ends at the length of the text (with no segment at all, the
  text is empty); every segment is non-empty and holds its slice of the text.
\<close>

definition partitions :: "pystr \<Rightarrow> segment list \<Rightarrow> bool" where
  "partitions original_text segs \<longleftrightarrow>
     map seg_start segs @ [length original_text] = 0 # map seg_end segs \<and>
     (\<forall>s\<in>set segs. seg_start s < seg_end s \<and>
        seg_text s = slice original_text (seg_start s) (seg_end s)) \<and>
     concat (map seg_text segs) = original_text"

text \<open>The order of the ranges by start, and by index among equal starts.\<close>

definition start_then_index :: "highlight_range \<Rightarrow> highlight_range \<Rightarrow> bool" where
  "start_then_index a b \<longleftrightarrow>
     hr_start a < hr_start b \<or> (hr_start a = hr_start b \<and> issue_index a < issue_index b)"

section \<open>The position map\<close>

declare build_loop.simps [simp del]

text \<open>
  The invariant of the loop of \<open>build_position_map\<close>: the map is strictly increasing,
  lies below the cursor and inside the text, and reads the stripped text back from the
  text.
\<close>

lemma build_loop_inv:
  "build_loop tx i s m = (s', m') \<Longrightarrow> sorted_wrt (<) m \<Longrightarrow>
   \<forall>x\<in>set m. x < i \<and> x < length tx \<Longrightarrow> map ((!) tx) m = s \<Longrightarrow>
   sorted_wrt (<) m' \<and> (\<forall>x\<in>set m'. x < length tx) \<and> map ((!) tx) m' = s'"
proof (induction tx i s m rule: build_loop.induct)
  case (1 tx i stripped position_map)
  show ?case
  proof (cases "i < length tx")
    case False
    with "1.prems" show ?thesis
      by (simp add: build_loop.simps [of tx i])
  next
    case True
    show ?thesis
    proof (cases "url_match (drop i tx)")
      case (Some n)
      have "0 < n"
        using Some by (auto simp: url_match_def Let_def split: if_splits)
      with "1.prems"(3) have bnd: "\<forall>x\<in>set position_map. x < i + n \<and> x < length tx"
        by auto
      from "1.prems"(1) True Some
      have "build_loop tx (i + n) stripped position_map = (s', m')"
        by (simp add: build_loop.simps [of tx i])
      from "1.IH"(2) [OF True Some this "1.prems"(2) bnd "1.prems"(4)]
      show ?thesis .
    next
      case None
      from "1.prems"(1) True None
      have run: "build_loop tx (i + 1) (stripped @ [tx ! i]) (position_map @ [i]) = (s', m')"
        by (simp add: build_loop.simps [of tx i])
      have srt: "sorted_wrt (<) (position_map @ [i])"
        using "1.prems"(2,3) by (simp add: sorted_wrt_append)
      have bnd: "\<forall>x\<in>set (position_map @ [i]). x < i + 1 \<and> x < length tx"
        using "1.prems"(3) True by auto
      have rd: "map ((!) tx) (position_map @ [i]) = stripped @ [tx ! i]"
        using "1.prems"(4) by simp
      from "1.IH"(1) [OF True None run srt bnd rd]
      show ?thesis .
    qed
  qed
qed

lemma build_position_map_inv:
  assumes "build_position_map tx = (logical, m)"
  shows "sorted_wrt (<) m" and "\<forall>x\<in>set m. x < length tx" and "map ((!) tx) m = logical"
  using build_loop_inv [of tx 0 "[]" "[]" logical m] assms
  by (simp_all add: build_position_map_def)

lemma build_position_map_length:
  "build_position_map tx = (logical, m) \<Longrightarrow> length logical = length m"
  using build_position_map_inv(3) [of tx logical m] by auto

text \<open>
  C2. For every text, \<open>build_position_map\<close> returns a logical text and a map of the
  same length; the map is strictly increasing; and every entry of the map is an index
  of the text at which the text holds the character that the logical text holds at the
  entry's own index.
\<close>

theorem build_position_map_round_trip:
  "build_position_map tx = (logical, m) \<Longrightarrow>
   length logical = length m \<and> sorted_wrt (<) m \<and>
   (\<forall>i<length m. m ! i < length tx \<and> tx ! (m ! i) = logical ! i)"
proof (intro conjI allI impI)
  assume bpm: "build_position_map tx = (logical, m)"
  show "length logical = length m"
    by (rule build_position_map_length [OF bpm])
  show "sorted_wrt (<) m"
    by (rule build_position_map_inv(1) [OF bpm])
  fix i
  assume i: "i < length m"
  then show "m ! i < length tx"
    using build_position_map_inv(2) [OF bpm] by simp
  have "map ((!) tx) m ! i = logical ! i"
    using build_position_map_inv(3) [OF bpm] by simp
  with i show "tx ! (m ! i) = logical ! i"
    by simp
qed

theorem build_position_map_round_trip_witness:
  "build_position_map (str ''a (http://x)b'') = (str ''ab'', [0, 12]) \<and>
   length (str ''ab'') = length [0, 12 :: nat] \<and> sorted_wrt (<) [0, 12 :: nat] \<and>
   str ''a (http://x)b'' ! ([0, 12] ! 1) = str ''ab'' ! 1"
proof -
  have run: "build_position_map (str ''a (http://x)b'') = (str ''ab'', [0, 12])"
    by (simp add: build_position_map_def build_loop.simps str_def url_match_def is_space_def)
  from build_position_map_round_trip [OF run]
  have every: "\<forall>i<length [0, 12 :: nat]. [0, 12] ! i < length (str ''a (http://x)b'') \<and>
        str ''a (http://x)b'' ! ([0, 12] ! i) = str ''ab'' ! i"
    by blast
  have "(1 :: nat) < length [0, 12 :: nat]"
    by simp
  with every have "str ''a (http://x)b'' ! ([0, 12] ! 1) = str ''ab'' ! 1"
    by blast
  with run show ?thesis
    by (simp add: str_def)
qed

section \<open>Substring search\<close>

lemma prefix_iff_take: "prefix sub ys \<longleftrightarrow> take (length sub) ys = sub"
proof
  assume "prefix sub ys"
  then show "take (length sub) ys = sub"
    by (auto simp: prefix_def)
next
  assume "take (length sub) ys = sub"
  then have "ys = sub @ drop (length sub) ys"
    by (metis append_take_drop_id)
  then show "prefix sub ys"
    unfolding prefix_def by blast
qed

lemma occurs_at_prefix: "occurs_at s sub q \<longleftrightarrow> prefix sub (drop q s)"
  by (simp add: occurs_at_def slice_def prefix_iff_take)

lemma find_from_Some:
  "find_from sub s i = Some p \<Longrightarrow>
   i \<le> p \<and> p - i \<le> length s \<and> prefix sub (drop (p - i) s) \<and>
   (\<forall>q<p - i. \<not> prefix sub (drop q s))"
proof (induction s arbitrary: i)
  case Nil
  then show ?case by (simp split: if_splits)
next
  case (Cons x xs)
  show ?case
  proof (cases "prefix sub (x # xs)")
    case True
    with Cons.prems show ?thesis by simp
  next
    case False
    with Cons.prems have "find_from sub xs (Suc i) = Some p" by simp
    from Cons.IH [OF this]
    have le: "Suc i \<le> p" and len: "p - Suc i \<le> length xs"
      and pre: "prefix sub (drop (p - Suc i) xs)"
      and least: "\<forall>q<p - Suc i. \<not> prefix sub (drop q xs)"
      by blast+
    from le have eq: "p - i = Suc (p - Suc i)" by simp
    have "\<not> prefix sub (drop q (x # xs))" if "q < p - i" for q
    proof (cases q)
      case 0
      with False show ?thesis by simp
    next
      case (Suc q')
      with that eq have "q' < p - Suc i" by simp
      with least Suc show ?thesis by simp
    qed
    with le len pre eq show ?thesis by simp
  qed
qed

lemma find_from_None:
  "find_from sub s i = None \<Longrightarrow> \<not> prefix sub (drop q s)"
proof (induction s arbitrary: i q)
  case Nil
  then show ?case by (simp split: if_splits)
next
  case (Cons x xs)
  from Cons.prems have np: "\<not> prefix sub (x # xs)" and rest: "find_from sub xs (Suc i) = None"
    by (simp_all split: if_splits)
  show ?case
  proof (cases q)
    case 0
    with np show ?thesis by simp
  next
    case (Suc q')
    with Cons.IH [OF rest, of q'] show ?thesis by simp
  qed
qed

lemma str_find_Some:
  "str_find s sub = Some p \<Longrightarrow>
   p + length sub \<le> length s \<and> occurs_at s sub p \<and> (\<forall>q<p. \<not> occurs_at s sub q)"
proof -
  assume "str_find s sub = Some p"
  then have f: "find_from sub s 0 = Some p" by (simp add: str_find_def)
  from find_from_Some [OF f]
  have len: "p \<le> length s" and pre: "prefix sub (drop p s)"
    and least: "\<forall>q<p. \<not> prefix sub (drop q s)"
    by simp_all
  from pre have "length sub \<le> length (drop p s)"
    by (rule prefix_length_le)
  with len have "p + length sub \<le> length s" by simp
  with pre least show ?thesis
    by (simp add: occurs_at_prefix)
qed

lemma str_find_None: "str_find s sub = None \<Longrightarrow> \<not> occurs_at s sub q"
  by (simp add: str_find_def occurs_at_prefix find_from_None)

lemma str_find_first:
  assumes "occurs_at s sub p" and "\<forall>q<p. \<not> occurs_at s sub q"
  shows "str_find s sub = Some p"
proof (cases "str_find s sub")
  case None
  from str_find_None [OF None] assms(1) show ?thesis by blast
next
  case (Some p')
  from str_find_Some [OF Some]
  have o: "occurs_at s sub p'" and l: "\<forall>q<p'. \<not> occurs_at s sub q" by blast+
  have "p' = p"
  proof (rule ccontr)
    assume "p' \<noteq> p"
    then consider "p' < p" | "p < p'" by linarith
    then show False
      using o l assms by cases blast+
  qed
  with Some show ?thesis by simp
qed


section \<open>Locating an excerpt\<close>

lemma locate_exact:
  "str_find tx e = Some p \<Longrightarrow> locate tx logical pm e = Inr (Some p, Some (p + length e))"
  by (simp add: locate_def)

lemma locate_fallback_none:
  "str_find tx e = None \<Longrightarrow> str_find logical (fst (build_position_map e)) = None \<Longrightarrow>
   locate tx logical pm e = Inr (None, None)"
  by (simp add: locate_def)

lemma locate_fallback_empty:
  "str_find tx e = None \<Longrightarrow> fst (build_position_map e) = [] \<Longrightarrow>
   locate tx logical pm e = Inr (None, None)"
  by (simp add: locate_def Let_def split: option.splits)

lemma fallback_bounds:
  assumes bpm: "build_position_map tx = (logical, pm)"
    and found: "str_find logical e' = Some p" and ne: "e' \<noteq> []"
  shows "p + length e' \<le> length pm" and "p < length pm" and "p + length e' - 1 < length pm"
proof -
  from str_find_Some [OF found] have "p + length e' \<le> length logical" by blast
  with build_position_map_length [OF bpm] show le: "p + length e' \<le> length pm" by simp
  from ne have "0 < length e'" by simp
  with le show "p < length pm" and "p + length e' - 1 < length pm" by linarith+
qed

lemma locate_fallback_found:
  assumes bpm: "build_position_map tx = (logical, pm)"
    and nf: "str_find tx e = None"
    and found: "str_find logical (fst (build_position_map e)) = Some p"
    and ne: "fst (build_position_map e) \<noteq> []"
  shows "locate tx logical pm e =
           Inr (Some (pm ! p), Some (pm ! (p + length (fst (build_position_map e)) - 1) + 1))"
proof -
  let ?L = "length (fst (build_position_map e))"
  note b = fallback_bounds [OF bpm found ne]
  from b(1) have m: "min (p + ?L) (length pm) = p + ?L" by simp
  from ne have pos: "0 < ?L" by simp
  show ?thesis
    using nf found pos b m by (simp add: locate_def Let_def index_def)
qed

lemma locate_no_error:
  assumes bpm: "build_position_map tx = (logical, pm)"
  shows "\<exists>r. locate tx logical pm e = Inr r"
proof (cases "str_find tx e")
  case (Some p)
  then show ?thesis by (simp add: locate_exact)
next
  case None
  show ?thesis
  proof (cases "str_find logical (fst (build_position_map e))")
    case None
    with \<open>str_find tx e = None\<close> show ?thesis by (simp add: locate_fallback_none)
  next
    case (Some p)
    show ?thesis
    proof (cases "fst (build_position_map e) = []")
      case True
      with \<open>str_find tx e = None\<close> show ?thesis by (simp add: locate_fallback_empty)
    next
      case False
      from locate_fallback_found [OF bpm \<open>str_find tx e = None\<close> Some False]
      show ?thesis by simp
    qed
  qed
qed

lemma locate_range_bounds:
  assumes bpm: "build_position_map tx = (logical, pm)"
    and loc: "locate tx logical pm e = Inr (Some a, Some b)"
  shows "a \<le> b" and "b \<le> length tx"
proof -
  have "a \<le> b \<and> b \<le> length tx"
  proof (cases "str_find tx e")
    case (Some p)
    from str_find_Some [OF Some] have "p + length e \<le> length tx" by blast
    with loc Some show ?thesis by (simp add: locate_exact)
  next
    case None
    show ?thesis
    proof (cases "str_find logical (fst (build_position_map e))")
      case None
      with \<open>str_find tx e = None\<close> loc show ?thesis by (simp add: locate_fallback_none)
    next
      case (Some p)
      show ?thesis
      proof (cases "fst (build_position_map e) = []")
        case True
        with \<open>str_find tx e = None\<close> loc show ?thesis by (simp add: locate_fallback_empty)
      next
        case False
        let ?k = "p + length (fst (build_position_map e)) - 1"
        from locate_fallback_found [OF bpm \<open>str_find tx e = None\<close> Some False] loc
        have a: "a = pm ! p" and b: "b = pm ! ?k + 1" by simp_all
        note bd = fallback_bounds [OF bpm Some False]
        have "sorted pm"
          using build_position_map_inv(1) [OF bpm] by (simp add: strict_sorted_iff)
        moreover have "p \<le> ?k" using False by (cases "fst (build_position_map e)") simp_all
        ultimately have "pm ! p \<le> pm ! ?k"
          using bd(3) by (simp add: sorted_iff_nth_mono)
        moreover have "pm ! ?k < length tx"
          using build_position_map_inv(2) [OF bpm] bd(3) by simp
        ultimately show ?thesis using a b by simp
      qed
    qed
  qed
  then show "a \<le> b" and "b \<le> length tx" by simp_all
qed

section \<open>The located ranges\<close>

lemma find_ranges_eq:
  assumes bpm: "build_position_map tx = (logical, pm)"
  shows "find_ranges tx logical pm fis acc =
           Inr (acc @ List.map_filter (located_range tx logical pm) fis)"
proof (induction fis arbitrary: acc)
  case Nil
  show ?case by (simp add: List.map_filter_simps)
next
  case (Cons fi fis)
  obtain idx issue where fi: "fi = (idx, issue)" by (cases fi)
  show ?case
  proof (cases "strip (get_excerpt issue) = []")
    case True
    then show ?thesis
      using Cons.IH [of acc] by (simp add: fi located_range_def List.map_filter_simps)
  next
    case False
    from locate_no_error [OF bpm, of "strip (get_excerpt issue)"]
    obtain a b where loc: "locate tx logical pm (strip (get_excerpt issue)) = Inr (a, b)"
      by auto
    show ?thesis
    proof (cases "\<exists>x y. a = Some x \<and> b = Some y")
      case True
      then obtain x y where "a = Some x" and "b = Some y" by blast
      with False loc show ?thesis
        using Cons.IH by (simp add: fi located_range_def List.map_filter_simps)
    next
      case nb: False
      then have "a = None \<or> b = None" by auto
      with False loc show ?thesis
        using Cons.IH [of acc]
        by (auto simp: fi located_range_def List.map_filter_simps split: option.splits)
    qed
  qed
qed

lemma located_range_index:
  "located_range tx logical pm fi = Some hr \<Longrightarrow> issue_index hr = fst fi"
  by (cases fi)
     (auto simp: located_range_def Let_def split: if_splits sum.splits option.splits prod.splits)

lemma located_range_bounds:
  assumes bpm: "build_position_map tx = (logical, pm)"
    and lr: "located_range tx logical pm fi = Some hr"
  shows "hr_start hr \<le> hr_end hr" and "hr_end hr \<le> length tx"
proof -
  obtain idx issue where fi: "fi = (idx, issue)" by (cases fi)
  from lr fi have "locate tx logical pm (strip (get_excerpt issue)) =
      Inr (Some (hr_start hr), Some (hr_end hr))"
    by (auto simp: located_range_def Let_def split: if_splits sum.splits option.splits prod.splits)
  from locate_range_bounds [OF bpm this]
  show "hr_start hr \<le> hr_end hr" and "hr_end hr \<le> length tx" .
qed

lemma map_filter_set:
  "hr \<in> set (List.map_filter f xs) \<longleftrightarrow> (\<exists>x\<in>set xs. f x = Some hr)"
  by (induction xs) (auto simp: List.map_filter_simps split: option.splits)

lemma located_indices_sorted:
  "sorted_wrt (<) (map fst fis) \<Longrightarrow>
   sorted_wrt (<) (map issue_index (List.map_filter (located_range tx logical pm) fis))"
proof (induction fis)
  case Nil
  show ?case by (simp add: List.map_filter_simps)
next
  case (Cons fi fis)
  from Cons.prems have later: "\<forall>x\<in>set fis. fst fi < fst x" and rest: "sorted_wrt (<) (map fst fis)"
    by simp_all
  note IH = Cons.IH [OF rest]
  show ?case
  proof (cases "located_range tx logical pm fi")
    case None
    with IH show ?thesis by (simp add: List.map_filter_simps)
  next
    case (Some hr)
    have "issue_index hr < issue_index hr'"
      if "hr' \<in> set (List.map_filter (located_range tx logical pm) fis)" for hr'
    proof -
      from that obtain x where x: "x \<in> set fis" and "located_range tx logical pm x = Some hr'"
        by (auto simp: map_filter_set)
      then have "issue_index hr' = fst x" by (simp add: located_range_index)
      moreover have "issue_index hr = fst fi" using Some by (simp add: located_range_index)
      ultimately show ?thesis using later x by simp
    qed
    with IH Some show ?thesis by (simp add: List.map_filter_simps)
  qed
qed

lemma filter_issues_sorted:
  "sorted_wrt (<) (map fst (filter_issues issues b1 b2 b3))"
proof -
  have "sorted_wrt (<) (map fst (enumerate 0 issues))"
    by (simp add: map_fst_enumerate)
  then have "sorted_wrt (<) (map fst (filter P (enumerate 0 issues)))" for P
    by (metis sorted_wrt_filter sorted_wrt_map filter_map)
  then show ?thesis by (simp add: filter_issues_def)
qed

lemma filter_issues_set:
  "(i, x) \<in> set (filter_issues issues b1 b2 b3) \<Longrightarrow> i < length issues \<and> x = issues ! i"
  by (auto simp: filter_issues_def in_set_enumerate_eq)

lemma compute_segments_eq:
  "compute_segments tx fis =
     Inr (build_segments tx
            (sort_key hr_start
               (List.map_filter
                  (located_range tx (fst (build_position_map tx)) (snd (build_position_map tx)))
                  fis)))"
proof -
  obtain logical pm where bpm: "build_position_map tx = (logical, pm)"
    by (cases "build_position_map tx")
  show ?thesis
    using find_ranges_eq [OF bpm, of fis "[]"] by (simp add: compute_segments_def bpm)
qed

lemma highlight_text_total:
  "\<exists>html. highlight_text title tx issues b1 b2 b3 = Inr html"
  by (simp add: highlight_text_def Let_def compute_segments_eq)

section \<open>Locating by exact match and by the logical text\<close>

text \<open>
  C3. When the trimmed excerpt of an issue is non-empty and occurs in the original text,
  the located range starts at the first occurrence and has the length of the trimmed
  excerpt, also when the excerpt occurs again later. The result is the same for every
  logical text and every position map: the fallback has no part in it.
\<close>

theorem exact_match_first_occurrence:
  assumes e: "e = strip (get_excerpt issue)" and ne: "e \<noteq> []" and occ: "occurs_at tx e q"
  shows "\<exists>p. p \<le> q \<and> occurs_at tx e p \<and> (\<forall>r<p. \<not> occurs_at tx e r) \<and>
           (\<forall>logical pm.
              locate tx logical pm e = Inr (Some p, Some (p + length e)) \<and>
              (\<exists>hr. located_range tx logical pm (idx, issue) = Some hr \<and>
                    hr_start hr = p \<and> hr_end hr = p + length e \<and> issue_index hr = idx))"
proof (cases "str_find tx e")
  case None
  from str_find_None [OF None] occ show ?thesis by blast
next
  case (Some p)
  from str_find_Some [OF Some]
  have at: "occurs_at tx e p" and least: "\<forall>r<p. \<not> occurs_at tx e r" by blast+
  have "p \<le> q"
  proof (rule ccontr)
    assume "\<not> p \<le> q"
    then have "q < p" by simp
    with least occ show False by blast
  qed
  moreover have "locate tx logical pm e = Inr (Some p, Some (p + length e))" for logical pm
    by (rule locate_exact [OF Some])
  moreover have "\<exists>hr. located_range tx logical pm (idx, issue) = Some hr \<and>
      hr_start hr = p \<and> hr_end hr = p + length e \<and> issue_index hr = idx" for logical pm
    using ne e locate_exact [OF Some, of logical pm] by (simp add: located_range_def)
  ultimately show ?thesis using at least by blast
qed

theorem exact_match_first_occurrence_witness:
  "strip (get_excerpt \<lparr>i_type = None, i_excerpt = Some (str '' bc ''), i_issue = None,
                       i_sources = None\<rparr>) = str ''bc'' \<and>
   occurs_at (str ''abcabc'') (str ''bc'') 4 \<and>
   (\<exists>p. p \<le> 4 \<and> locate (str ''abcabc'') [] [] (str ''bc'') = Inr (Some p, Some (p + 2))) \<and>
   locate (str ''abcabc'') [] [] (str ''bc'') = Inr (Some 1, Some 3)"
proof -
  let ?issue = "\<lparr>i_type = None, i_excerpt = Some (str '' bc ''), i_issue = None,
                  i_sources = None\<rparr>"
  have e: "str ''bc'' = strip (get_excerpt ?issue)"
    by (simp add: strip_def get_excerpt_def str_def is_space_def)
  have ne: "str ''bc'' \<noteq> []"
    by (simp add: str_def)
  have occ: "occurs_at (str ''abcabc'') (str ''bc'') 4"
    by (simp add: occurs_at_def slice_def str_def)
  from exact_match_first_occurrence [OF e ne occ, of 0]
  obtain p where "p \<le> 4" and "locate (str ''abcabc'') [] [] (str ''bc'') =
      Inr (Some p, Some (p + length (str ''bc'')))"
    by blast
  then have "\<exists>p. p \<le> 4 \<and> locate (str ''abcabc'') [] [] (str ''bc'') = Inr (Some p, Some (p + 2))"
    by (auto simp: str_def)
  moreover have "locate (str ''abcabc'') [] [] (str ''bc'') = Inr (Some 1, Some 3)"
    by (simp add: locate_def str_find_def str_def)
  ultimately show ?thesis using e occ by simp
qed

lemma not_occurs_find_None: "\<forall>q. \<not> occurs_at s sub q \<Longrightarrow> str_find s sub = None"
proof (cases "str_find s sub")
  case None
  then show ?thesis .
next
  case (Some p)
  assume "\<forall>q. \<not> occurs_at s sub q"
  with str_find_Some [OF Some] show ?thesis by blast
qed

text \<open>
  C4. Let the trimmed excerpt \<open>e\<close> of an issue occur nowhere in the original text, and
  let \<open>e'\<close> be its logical form, of length \<open>L\<close>. If the first occurrence of \<open>e'\<close> in the
  logical text is at offset \<open>p\<close> and \<open>p + L - 1\<close> is an index of the map, the located
  range is from \<open>map[p]\<close> to \<open>map[p + L - 1] + 1\<close>. If \<open>p + L - 1\<close> is not an index of
  the map (it is \<open>-1\<close> for an empty \<open>e'\<close>, found at offset 0), or if \<open>e'\<close> does not occur
  in the logical text, nothing is located and the issue gets no range.
\<close>

theorem fallback_range:
  assumes bpm: "build_position_map tx = (logical, pm)"
    and e: "e = strip (get_excerpt issue)"
    and nosub: "\<forall>q. \<not> occurs_at tx e q"
    and e': "e' = fst (build_position_map e)"
  shows "(\<forall>p. occurs_at logical e' p \<and> (\<forall>r<p. \<not> occurs_at logical e' r) \<longrightarrow>
            (if 0 \<le> int p + int (length e') - 1 \<and> int p + int (length e') - 1 < int (length pm)
             then locate tx logical pm e =
                    Inr (Some (pm ! p), Some (pm ! (p + length e' - 1) + 1)) \<and>
                  (\<exists>hr. located_range tx logical pm (idx, issue) = Some hr \<and>
                        hr_start hr = pm ! p \<and> hr_end hr = pm ! (p + length e' - 1) + 1)
             else locate tx logical pm e = Inr (None, None) \<and>
                  located_range tx logical pm (idx, issue) = None)) \<and>
         ((\<forall>p. \<not> occurs_at logical e' p) \<longrightarrow>
            locate tx logical pm e = Inr (None, None) \<and>
            located_range tx logical pm (idx, issue) = None)"
proof (intro conjI allI impI)
  from nosub have nf: "str_find tx e = None"
    by (rule not_occurs_find_None)
  have ne: "e \<noteq> []"
  proof
    assume "e = []"
    then have "occurs_at tx e 0" by (simp add: occurs_at_def slice_def)
    with nosub show False by blast
  qed
  {
    assume "\<forall>p. \<not> occurs_at logical e' p"
    then have "str_find logical e' = None" by (rule not_occurs_find_None)
    with nf have loc: "locate tx logical pm e = Inr (None, None)"
      by (simp add: e' locate_fallback_none)
    then show "locate tx logical pm e = Inr (None, None)" .
    from loc ne e show "located_range tx logical pm (idx, issue) = None"
      by (simp add: located_range_def)
  }
  fix p
  assume first: "occurs_at logical e' p \<and> (\<forall>r<p. \<not> occurs_at logical e' r)"
  then have found: "str_find logical e' = Some p"
    by (simp add: str_find_first)
  show "if 0 \<le> int p + int (length e') - 1 \<and> int p + int (length e') - 1 < int (length pm)
        then locate tx logical pm e =
               Inr (Some (pm ! p), Some (pm ! (p + length e' - 1) + 1)) \<and>
             (\<exists>hr. located_range tx logical pm (idx, issue) = Some hr \<and>
                   hr_start hr = pm ! p \<and> hr_end hr = pm ! (p + length e' - 1) + 1)
        else locate tx logical pm e = Inr (None, None) \<and>
             located_range tx logical pm (idx, issue) = None"
  proof (cases "e' = []")
    case True
    then have p0: "p = 0"
      using first by (cases p) (auto simp: occurs_at_def slice_def)
    from True nf have loc: "locate tx logical pm e = Inr (None, None)"
      by (simp add: e' locate_fallback_empty)
    with ne e have "located_range tx logical pm (idx, issue) = None"
      by (simp add: located_range_def)
    with loc True p0 show ?thesis by simp
  next
    case False
    from found False have loc: "locate tx logical pm e =
        Inr (Some (pm ! p), Some (pm ! (p + length e' - 1) + 1))"
      using locate_fallback_found [OF bpm nf, of p] by (simp add: e')
    with ne e have "\<exists>hr. located_range tx logical pm (idx, issue) = Some hr \<and>
        hr_start hr = pm ! p \<and> hr_end hr = pm ! (p + length e' - 1) + 1"
      by (simp add: located_range_def)
    moreover have "0 \<le> int p + int (length e') - 1 \<and>
        int p + int (length e') - 1 < int (length pm)"
    proof -
      from False have "0 < length e'" by simp
      moreover note fallback_bounds(3) [OF bpm found False]
      ultimately show ?thesis by linarith
    qed
    ultimately show ?thesis using loc by simp
  qed
qed

theorem fallback_range_witness:
  "build_position_map (str ''ab (http://x)c'') = (str ''abc'', [0, 1, 13]) \<and>
   str_find (str ''ab (http://x)c'') (str ''abc'') = None \<and>
   occurs_at (str ''abc'') (str ''abc'') 0 \<and>
   locate (str ''ab (http://x)c'') (str ''abc'') [0, 1, 13] (str ''abc'') =
     Inr (Some 0, Some 14)"
proof -
  let ?tx = "str ''ab (http://x)c''"
  let ?issue = "\<lparr>i_type = None, i_excerpt = Some (str ''abc''), i_issue = None,
                  i_sources = None\<rparr>"
  have bpm: "build_position_map ?tx = (str ''abc'', [0, 1, 13])"
    by (simp add: build_position_map_def build_loop.simps str_def url_match_def is_space_def)
  have e: "str ''abc'' = strip (get_excerpt ?issue)"
    by (simp add: strip_def get_excerpt_def str_def is_space_def)
  have nf: "str_find ?tx (str ''abc'') = None"
    by (simp add: str_find_def str_def)
  then have nosub: "\<forall>q. \<not> occurs_at ?tx (str ''abc'') q"
    by (simp add: str_find_None)
  have e': "str ''abc'' = fst (build_position_map (str ''abc''))"
    by (simp add: build_position_map_def build_loop.simps str_def url_match_def is_space_def)
  have occ: "occurs_at (str ''abc'') (str ''abc'') 0 \<and>
      (\<forall>r<0. \<not> occurs_at (str ''abc'') (str ''abc'') r)"
    by (simp add: occurs_at_def slice_def)
  from fallback_range [OF bpm e nosub e', of 0] occ
  have "if 0 \<le> int 0 + int (length (str ''abc'')) - 1 \<and>
           int 0 + int (length (str ''abc'')) - 1 < int (length [0, 1, 13 :: nat])
        then locate ?tx (str ''abc'') [0, 1, 13] (str ''abc'') =
               Inr (Some ([0, 1, 13] ! 0), Some ([0, 1, 13] ! (0 + length (str ''abc'') - 1) + 1)) \<and>
             (\<exists>hr. located_range ?tx (str ''abc'') [0, 1, 13] (0, ?issue) = Some hr \<and>
                   hr_start hr = [0, 1, 13] ! 0 \<and>
                   hr_end hr = [0, 1, 13] ! (0 + length (str ''abc'') - 1) + 1)
        else locate ?tx (str ''abc'') [0, 1, 13] (str ''abc'') = Inr (None, None) \<and>
             located_range ?tx (str ''abc'') [0, 1, 13] (0, ?issue) = None"
    by blast
  then have "locate ?tx (str ''abc'') [0, 1, 13] (str ''abc'') = Inr (Some 0, Some 14)"
    by (simp add: str_def)
  with bpm nf occ show ?thesis by simp
qed

text \<open>
  C10. In the fallback, when the non-empty logical form of an excerpt, of length \<open>L\<close>,
  is found at offset \<open>p\<close> of the logical text of the original text, then
  \<open>p + L \<le> len(pos_map)\<close>, so that taking the minimum with \<open>len(pos_map)\<close> changes
  nothing; the reads \<open>pos_map[p]\<close> and \<open>pos_map[p + L - 1]\<close> are in range; locating
  raises nothing; and \<open>highlight_text\<close> raises nothing on any input.
\<close>

theorem fallback_reads_in_bounds:
  assumes bpm: "build_position_map tx = (logical, pm)"
    and e': "e' = fst (build_position_map e)"
    and ne: "e' \<noteq> []"
    and found: "str_find logical e' = Some p"
  shows "p + length e' \<le> length pm \<and>
         min (p + length e') (length pm) = p + length e' \<and>
         index pm p = Inr (pm ! p) \<and>
         index pm (min (p + length e') (length pm) - 1) = Inr (pm ! (p + length e' - 1)) \<and>
         (\<exists>r. locate tx logical pm e = Inr r) \<and>
         (\<forall>title issues b1 b2 b3. \<exists>html. highlight_text title tx issues b1 b2 b3 = Inr html)"
proof -
  note b = fallback_bounds [OF bpm found ne]
  from b(1) have m: "min (p + length e') (length pm) = p + length e'" by simp
  from b(2) have r1: "index pm p = Inr (pm ! p)" by (simp add: index_def)
  from b(3) have r2: "index pm (min (p + length e') (length pm) - 1) = Inr (pm ! (p + length e' - 1))"
    by (simp add: index_def m)
  from b(1) m r1 r2 locate_no_error [OF bpm, of e] highlight_text_total [of _ tx]
  show ?thesis by blast
qed

theorem fallback_reads_in_bounds_witness:
  "build_position_map (str ''a (https://u)b c'') = (str ''ab c'', [0, 13, 14, 15]) \<and>
   str_find (str ''ab c'') (str ''b c'') = Some 1 \<and>
   1 + length (str ''b c'') \<le> length [0, 13, 14, 15 :: nat] \<and>
   index [0, 13, 14, 15 :: nat] 1 = Inr 13 \<and>
   index [0, 13, 14, 15 :: nat] (min (1 + length (str ''b c'')) 4 - 1) = Inr 15"
proof -
  let ?tx = "str ''a (https://u)b c''"
  have bpm: "build_position_map ?tx = (str ''ab c'', [0, 13, 14, 15])"
    by (simp add: build_position_map_def build_loop.simps str_def url_match_def is_space_def)
  have e': "str ''b c'' = fst (build_position_map (str ''b c(http://v)''))"
    by (simp add: build_position_map_def build_loop.simps str_def url_match_def is_space_def)
  have ne: "str ''b c'' \<noteq> []"
    by (simp add: str_def)
  have found: "str_find (str ''ab c'') (str ''b c'') = Some 1"
    by (simp add: str_find_def str_def)
  from fallback_reads_in_bounds [OF bpm e' ne found]
  have "1 + length (str ''b c'') \<le> length [0, 13, 14, 15 :: nat] \<and>
        index [0, 13, 14, 15 :: nat] 1 = Inr ([0, 13, 14, 15] ! 1) \<and>
        index [0, 13, 14, 15 :: nat] (min (1 + length (str ''b c'')) (length [0, 13, 14, 15 :: nat]) - 1) =
          Inr ([0, 13, 14, 15] ! (1 + length (str ''b c'') - 1))"
    by blast
  then have "1 + length (str ''b c'') \<le> length [0, 13, 14, 15 :: nat] \<and>
        index [0, 13, 14, 15 :: nat] 1 = Inr 13 \<and>
        index [0, 13, 14, 15 :: nat] (min (1 + length (str ''b c'')) 4 - 1) = Inr 15"
    by (simp add: str_def)
  with bpm found show ?thesis by (simp add: str_def)
qed

text \<open>
  C5. The excerpt \<open>Paris is the capital.\<close> does not occur in the text
  \<open>Paris is the capital (https://example.com/1).\<close>; it is the logical text of that
  text, and it is located through the fallback at the range from 0 to 45, the length of
  the text, whose last character, at 44, is the closing period: the range holds the
  annotation, which lies from 20 to 44.
\<close>

theorem paris_located_by_fallback:
  "str_find (str ''Paris is the capital (https://example.com/1).'')
     (strip (str ''Paris is the capital.'')) = None \<and>
   fst (build_position_map (str ''Paris is the capital (https://example.com/1).'')) =
     str ''Paris is the capital.'' \<and>
   url_match (drop 20 (str ''Paris is the capital (https://example.com/1).'')) = Some 24 \<and>
   length (str ''Paris is the capital (https://example.com/1).'') = 45 \<and>
   str ''Paris is the capital (https://example.com/1).'' ! 44 = cp CHR ''.'' \<and>
   locate (str ''Paris is the capital (https://example.com/1).'')
     (fst (build_position_map (str ''Paris is the capital (https://example.com/1).'')))
     (snd (build_position_map (str ''Paris is the capital (https://example.com/1).'')))
     (strip (str ''Paris is the capital.'')) = Inr (Some 0, Some 45)"
proof -
  let ?tx = "str ''Paris is the capital (https://example.com/1).''"
  let ?e = "str ''Paris is the capital.''"
  have bpm: "build_position_map ?tx =
      (?e, [0, 1, 2, 3, 4, 5, 6, 7, 8, 9, 10, 11, 12, 13, 14, 15, 16, 17, 18, 19, 44])"
    by (simp add: build_position_map_def build_loop.simps str_def url_match_def is_space_def)
  have st: "strip ?e = ?e"
    by (simp add: strip_def str_def is_space_def)
  have nf: "str_find ?tx ?e = None"
    by (simp add: str_find_def str_def)
  have el: "fst (build_position_map ?e) = ?e"
    by (simp add: build_position_map_def build_loop.simps str_def url_match_def is_space_def)
  have fl: "str_find ?e ?e = Some 0"
    by (simp add: str_find_def str_def)
  have um: "url_match (drop 20 ?tx) = Some 24"
    by (simp add: str_def url_match_def is_space_def)
  have len: "length ?tx = 45" and last: "?tx ! 44 = cp CHR ''.''"
    by (simp_all add: str_def)
  have ne: "fst (build_position_map ?e) \<noteq> []"
    by (simp add: el) (simp add: str_def)
  have "locate ?tx ?e [0, 1, 2, 3, 4, 5, 6, 7, 8, 9, 10, 11, 12, 13, 14, 15, 16, 17, 18, 19, 44] ?e =
      Inr (Some 0, Some 45)"
    using locate_fallback_found [OF bpm nf _ ne, of 0] fl
    by (simp add: el) (simp add: str_def)
  with bpm st nf um len last show ?thesis
    by simp
qed

section \<open>The dictionary of positions\<close>

lemma get_issues_add_position:
  "get_issues (add_position hr pos m) p =
     (if p = pos then get_issues m p @ [hr] else get_issues m p)"
  by (auto simp: get_issues_def add_position_def Let_def dom_def split: option.splits)

lemma get_issues_fold_add:
  "distinct ps \<Longrightarrow>
   get_issues (fold (add_position hr) ps m) p =
     (if p \<in> set ps then get_issues m p @ [hr] else get_issues m p)"
proof (induction ps arbitrary: m)
  case Nil
  show ?case by simp
next
  case (Cons a ps)
  from Cons.prems have d: "distinct ps" and na: "a \<notin> set ps" by simp_all
  show ?case
    using Cons.IH [OF d, of "add_position hr a m"] na
    by (auto simp: get_issues_add_position)
qed

lemma get_issues_fold_ranges:
  "get_issues (fold (\<lambda>hr. fold (add_position hr) [hr_start hr..<hr_end hr]) hrs m) p =
     get_issues m p @ filter (covers p) hrs"
proof (induction hrs arbitrary: m)
  case Nil
  show ?case by simp
next
  case (Cons hr hrs)
  have one: "get_issues (fold (add_position hr) [hr_start hr..<hr_end hr] m) p =
      get_issues m p @ (if covers p hr then [hr] else [])"
    by (simp add: get_issues_fold_add covers_def)
  show ?case
    using Cons.IH [of "fold (add_position hr) [hr_start hr..<hr_end hr] m"] one
    by simp
qed

lemma get_issues_build: "get_issues (build_position_issues hrs) p = filter (covers p) hrs"
  using get_issues_fold_ranges [of hrs Map.empty p]
  by (simp add: build_position_issues_def get_issues_def)

section \<open>The boundaries and the segments\<close>

lemma slice_append:
  "a \<le> b \<Longrightarrow> b \<le> c \<Longrightarrow> slice s a b @ slice s b c = slice s a c"
proof -
  assume ab: "a \<le> b" and bc: "b \<le> c"
  have "take ((b - a) + (c - b)) (drop a s) =
      take (b - a) (drop a s) @ take (c - b) (drop (b - a) (drop a s))"
    by (rule take_add)
  moreover from ab bc have "(b - a) + (c - b) = c - a" by simp
  moreover from ab have "drop (b - a) (drop a s) = drop b s" by simp
  ultimately show ?thesis by (simp add: slice_def)
qed

lemma concat_slices:
  assumes srt: "sorted ps"
  shows "k < length ps \<Longrightarrow>
         concat (map (\<lambda>i. slice s (ps ! i) (ps ! (i + 1))) [0..<k]) = slice s (ps ! 0) (ps ! k)"
proof (induction k)
  case 0
  show ?case by (simp add: slice_def)
next
  case (Suc k)
  then have k: "k < length ps" by simp
  from srt Suc.prems have "ps ! 0 \<le> ps ! k" and "ps ! k \<le> ps ! Suc k"
    by (simp_all add: sorted_iff_nth_mono)
  then have "slice s (ps ! 0) (ps ! k) @ slice s (ps ! k) (ps ! Suc k) =
      slice s (ps ! 0) (ps ! Suc k)"
    by (rule slice_append)
  with Suc.IH [OF k] show ?case by simp
qed

lemma boundaries_set:
  "set (boundaries tx hrs) = {0, length tx} \<union> hr_start ` set hrs \<union> hr_end ` set hrs"
  by (auto simp: boundaries_def)

lemma boundaries_sorted: "sorted_wrt (<) (boundaries tx hrs)"
  by (simp add: boundaries_def strict_sorted_iff)

lemma boundaries_ends:
  assumes inb: "\<forall>hr\<in>set hrs. hr_start hr \<le> length tx \<and> hr_end hr \<le> length tx"
  shows "boundaries tx hrs \<noteq> []" and "boundaries tx hrs ! 0 = 0"
    and "boundaries tx hrs ! (length (boundaries tx hrs) - 1) = length tx"
proof -
  let ?ps = "boundaries tx hrs"
  have srt: "sorted ?ps"
    using boundaries_sorted [of tx hrs] by (simp add: strict_sorted_iff)
  have z: "0 \<in> set ?ps" and l: "length tx \<in> set ?ps"
    by (simp_all add: boundaries_set)
  from z show ne: "?ps \<noteq> []" by auto
  then have len: "0 < length ?ps" by simp
  from z obtain i where i: "i < length ?ps" and "?ps ! i = 0"
    by (auto simp: in_set_conv_nth)
  moreover from srt i have "?ps ! 0 \<le> ?ps ! i"
    by (simp add: sorted_iff_nth_mono)
  ultimately show "?ps ! 0 = 0" by simp
  have upper: "\<forall>x\<in>set ?ps. x \<le> length tx"
    using inb by (auto simp: boundaries_set)
  from l obtain j where j: "j < length ?ps" and pj: "?ps ! j = length tx"
    by (auto simp: in_set_conv_nth)
  from srt j len have "?ps ! j \<le> ?ps ! (length ?ps - 1)"
    by (simp add: sorted_iff_nth_mono)
  moreover from len upper have "?ps ! (length ?ps - 1) \<le> length tx"
    by simp
  ultimately show "?ps ! (length ?ps - 1) = length tx"
    using pj by simp
qed

lemma build_segments_nth:
  assumes "i < length (boundaries tx hrs) - 1"
  shows "build_segments tx hrs ! i =
           \<lparr>seg_start = boundaries tx hrs ! i, seg_end = boundaries tx hrs ! (i + 1),
            seg_text = slice tx (boundaries tx hrs ! i) (boundaries tx hrs ! (i + 1)),
            seg_issues = filter (covers (boundaries tx hrs ! i)) hrs\<rparr>"
  using assms by (simp add: build_segments_def Let_def get_issues_build)

lemma build_segments_length:
  "length (build_segments tx hrs) = length (boundaries tx hrs) - 1"
  by (simp add: build_segments_def Let_def)

lemma build_segments_partitions:
  assumes inb: "\<forall>hr\<in>set hrs. hr_start hr \<le> length tx \<and> hr_end hr \<le> length tx"
  shows "partitions tx (build_segments tx hrs)"
proof -
  let ?ps = "boundaries tx hrs"
  let ?n = "length ?ps - 1"
  let ?segs = "build_segments tx hrs"
  note ends = boundaries_ends [OF inb]
  have strict: "sorted_wrt (<) ?ps" by (rule boundaries_sorted)
  then have srt: "sorted ?ps" by (simp add: strict_sorted_iff)
  have starts: "map seg_start ?segs = butlast ?ps"
    by (rule nth_equalityI) (simp_all add: build_segments_length build_segments_nth nth_butlast)
  have stops: "map seg_end ?segs = tl ?ps"
    by (rule nth_equalityI) (simp_all add: build_segments_length build_segments_nth nth_tl)
  have "butlast ?ps @ [last ?ps] = hd ?ps # tl ?ps"
    using ends(1) by simp
  moreover have "last ?ps = length tx"
    using ends(1,3) by (simp add: last_conv_nth)
  moreover have "hd ?ps = 0"
    using ends(1,2) by (simp add: hd_conv_nth)
  ultimately have chain: "map seg_start ?segs @ [length tx] = 0 # map seg_end ?segs"
    using starts stops by simp
  have each: "seg_start s < seg_end s \<and> seg_text s = slice tx (seg_start s) (seg_end s)"
    if "s \<in> set ?segs" for s
  proof -
    from that obtain i where i: "i < ?n" and s: "s = ?segs ! i"
      by (auto simp: in_set_conv_nth build_segments_length)
    from i have "?ps ! i < ?ps ! (i + 1)"
      using sorted_wrt_nth_less [OF strict, of i "i + 1"] by simp
    with i s show ?thesis by (simp add: build_segments_nth)
  qed
  have "map seg_text ?segs = map (\<lambda>i. slice tx (?ps ! i) (?ps ! (i + 1))) [0..<?n]"
    by (rule nth_equalityI) (simp_all add: build_segments_length build_segments_nth)
  moreover have "?n < length ?ps"
    using ends(1) by simp
  ultimately have "concat (map seg_text ?segs) = slice tx (?ps ! 0) (?ps ! ?n)"
    using concat_slices [OF srt, of ?n tx] by simp
  then have whole: "concat (map seg_text ?segs) = tx"
    using ends(2,3) by (simp add: slice_def)
  from chain each whole show ?thesis
    unfolding partitions_def by blast
qed

lemma located_ranges_in_text:
  assumes hr: "hr \<in> set (sort_key hr_start (List.map_filter
      (located_range tx (fst (build_position_map tx)) (snd (build_position_map tx))) fis))"
  shows "hr_start hr \<le> length tx \<and> hr_end hr \<le> length tx"
proof -
  have bpm: "build_position_map tx = (fst (build_position_map tx), snd (build_position_map tx))"
    by simp
  from hr obtain fi where
    "located_range tx (fst (build_position_map tx)) (snd (build_position_map tx)) fi = Some hr"
    by (auto simp: map_filter_set)
  from located_range_bounds [OF bpm this] show ?thesis by simp
qed

text \<open>
  C6. The segments built from ranges that lie in the text partition the text: they are
  contiguous from 0 to the length of the text, none is empty, and their texts
  concatenate to the text. The ranges that \<open>highlight_text\<close> locates lie in the text, so
  its segments always partition the text. Over a text of 20 characters, ranges from 0 to
  10 and from 5 to 15 give the four segments from 0 to 5, 5 to 10, 10 to 15 and 15 to 20,
  covered by the first range, by both, by the second, and by none.
\<close>

theorem segments_partition_text:
  "(\<forall>hrs. (\<forall>hr\<in>set hrs. hr_start hr \<le> length tx \<and> hr_end hr \<le> length tx) \<longrightarrow>
           partitions tx (build_segments tx hrs)) \<and>
   (\<exists>segs. compute_segments tx fis = Inr segs \<and> partitions tx segs) \<and>
   (length tx = 20 \<longrightarrow>
      map (\<lambda>s. (seg_start s, seg_end s, seg_issues s))
        (build_segments tx [r1\<lparr>hr_start := 0, hr_end := 10\<rparr>, r2\<lparr>hr_start := 5, hr_end := 15\<rparr>]) =
      [(0, 5, [r1\<lparr>hr_start := 0, hr_end := 10\<rparr>]),
       (5, 10, [r1\<lparr>hr_start := 0, hr_end := 10\<rparr>, r2\<lparr>hr_start := 5, hr_end := 15\<rparr>]),
       (10, 15, [r2\<lparr>hr_start := 5, hr_end := 15\<rparr>]),
       (15, 20, [])])"
proof (intro conjI allI impI)
  fix hrs :: "highlight_range list"
  assume "\<forall>hr\<in>set hrs. hr_start hr \<le> length tx \<and> hr_end hr \<le> length tx"
  then show "partitions tx (build_segments tx hrs)"
    by (rule build_segments_partitions)
next
  show "\<exists>segs. compute_segments tx fis = Inr segs \<and> partitions tx segs"
    using located_ranges_in_text [of _ tx fis]
    by (simp add: compute_segments_eq build_segments_partitions)
next
  let ?a = "r1\<lparr>hr_start := 0, hr_end := 10\<rparr>"
  let ?b = "r2\<lparr>hr_start := 5, hr_end := 15\<rparr>"
  assume len: "length tx = 20"
  have ps: "boundaries tx [?a, ?b] = [0, 5, 10, 15, 20]"
    by (simp add: boundaries_def len)
  have idx: "[0..<4] = [0, 1, 2, 3 :: nat]"
    by (simp add: upt_rec)
  show "map (\<lambda>s. (seg_start s, seg_end s, seg_issues s)) (build_segments tx [?a, ?b]) =
      [(0, 5, [?a]), (5, 10, [?a, ?b]), (10, 15, [?b]), (15, 20, [])]"
    by (simp add: build_segments_def Let_def ps idx get_issues_build covers_def)
qed


theorem segments_partition_text_witness:
  "length (str ''abcdefghijklmnopqrst'') = 20 \<and>
   partitions (str ''abcdefghijklmnopqrst'')
     (build_segments (str ''abcdefghijklmnopqrst'')
        [\<lparr>hr_start = 0, hr_end = 10, issue_index = 0, issue_type = str ''misleading'',
          explanation = [], sources = []\<rparr>,
         \<lparr>hr_start = 5, hr_end = 15, issue_index = 1, issue_type = str ''incomplete'',
          explanation = [], sources = []\<rparr>]) \<and>
   map (\<lambda>s. (seg_start s, seg_end s, map issue_index (seg_issues s)))
     (build_segments (str ''abcdefghijklmnopqrst'')
        [\<lparr>hr_start = 0, hr_end = 10, issue_index = 0, issue_type = str ''misleading'',
          explanation = [], sources = []\<rparr>,
         \<lparr>hr_start = 5, hr_end = 15, issue_index = 1, issue_type = str ''incomplete'',
          explanation = [], sources = []\<rparr>]) =
     [(0, 5, [0]), (5, 10, [0, 1]), (10, 15, [1]), (15, 20, [])]"
proof -
  let ?tx = "str ''abcdefghijklmnopqrst''"
  let ?a = "\<lparr>hr_start = 0, hr_end = 10, issue_index = 0, issue_type = str ''misleading'',
             explanation = [], sources = []\<rparr>"
  let ?b = "\<lparr>hr_start = 5, hr_end = 15, issue_index = 1, issue_type = str ''incomplete'',
             explanation = [], sources = []\<rparr>"
  have len: "length ?tx = 20"
    by (simp add: str_def)
  have inb: "\<forall>hr\<in>set [?a, ?b]. hr_start hr \<le> length ?tx \<and> hr_end hr \<le> length ?tx"
    by (simp add: len)
  note inst = segments_partition_text [of ?tx "[]" ?a ?b]
  from inst inb have part: "partitions ?tx (build_segments ?tx [?a, ?b])"
    by blast
  from inst len have "map (\<lambda>s. (seg_start s, seg_end s, seg_issues s))
      (build_segments ?tx [?a\<lparr>hr_start := 0, hr_end := 10\<rparr>, ?b\<lparr>hr_start := 5, hr_end := 15\<rparr>]) =
      [(0, 5, [?a\<lparr>hr_start := 0, hr_end := 10\<rparr>]),
       (5, 10, [?a\<lparr>hr_start := 0, hr_end := 10\<rparr>, ?b\<lparr>hr_start := 5, hr_end := 15\<rparr>]),
       (10, 15, [?b\<lparr>hr_start := 5, hr_end := 15\<rparr>]),
       (15, 20, [])]"
    by blast
  then have segs: "map (\<lambda>s. (seg_start s, seg_end s, seg_issues s)) (build_segments ?tx [?a, ?b]) =
      [(0, 5, [?a]), (5, 10, [?a, ?b]), (10, 15, [?b]), (15, 20, [])]"
    by simp
  have "map (\<lambda>s. (seg_start s, seg_end s, map issue_index (seg_issues s)))
      (build_segments ?tx [?a, ?b]) =
      map (\<lambda>(a, b, c). (a, b, map issue_index c))
        (map (\<lambda>s. (seg_start s, seg_end s, seg_issues s)) (build_segments ?tx [?a, ?b]))"
    by simp
  also have "\<dots> = [(0, 5, [0]), (5, 10, [0, 1]), (10, 15, [1]), (15, 20, [])]"
    by (simp only: segs) simp
  finally show ?thesis using len part by blast
qed

section \<open>The order of the issues of a segment\<close>

lemma start_then_index_le: "start_then_index a b \<Longrightarrow> hr_start a \<le> hr_start b"
  by (auto simp: start_then_index_def)

lemma insort_start_then_index:
  "sorted_wrt start_then_index ys \<Longrightarrow> \<forall>y\<in>set ys. issue_index x < issue_index y \<Longrightarrow>
   sorted_wrt start_then_index (insort_key hr_start x ys)"
proof (induction ys)
  case Nil
  show ?case by simp
next
  case (Cons y ys)
  show ?case
  proof (cases "hr_start x \<le> hr_start y")
    case True
    have "start_then_index x z" if "z \<in> set (y # ys)" for z
    proof -
      from that Cons.prems(1) have "hr_start y \<le> hr_start z"
        by (auto dest: start_then_index_le)
      with True have "hr_start x \<le> hr_start z" by simp
      moreover from that Cons.prems(2) have "issue_index x < issue_index z" by blast
      ultimately show ?thesis by (auto simp: start_then_index_def)
    qed
    with True Cons.prems(1) show ?thesis by simp
  next
    case False
    then have "start_then_index y x" by (simp add: start_then_index_def)
    moreover from Cons.prems have "sorted_wrt start_then_index (insort_key hr_start x ys)"
      by (simp add: Cons.IH)
    ultimately show ?thesis
      using False Cons.prems(1) by (auto simp: set_insort_key)
  qed
qed

lemma sort_start_then_index:
  "sorted_wrt (<) (map issue_index hrs) \<Longrightarrow>
   sorted_wrt start_then_index (sort_key hr_start hrs)"
proof (induction hrs)
  case Nil
  show ?case by simp
next
  case (Cons x hrs)
  from Cons.prems have "\<forall>y\<in>set (sort_key hr_start hrs). issue_index x < issue_index y"
    by simp
  moreover from Cons have "sorted_wrt start_then_index (sort_key hr_start hrs)"
    by simp
  ultimately show ?case
    by (simp add: insort_start_then_index)
qed

lemma build_segments_issues:
  "s \<in> set (build_segments tx hrs) \<Longrightarrow> seg_issues s = filter (covers (seg_start s)) hrs"
  by (auto simp: in_set_conv_nth build_segments_length build_segments_nth)

lemma pipeline_ranges_indexed:
  "sorted_wrt (<) (map issue_index (List.map_filter
     (located_range tx logical pm) (filter_issues issues b1 b2 b3)))"
  by (rule located_indices_sorted) (rule filter_issues_sorted)

text \<open>
  C1 (amended). In every segment that \<open>highlight_text\<close> builds, the covering ranges
  are in ascending order of their start, and in ascending order of \<open>issue_index\<close>
  among ranges with the same start; so the first of them, the primary issue, is a
  covering range with the least start. The order is not that of \<open>issue_index\<close> alone:
  in the text \<open>abcdef\<close> with the excerpts \<open>cd\<close> of issue 0 and \<open>bcde\<close> of issue 1,
  the segment from 2 to 4 lists issue 1 before issue 0.
\<close>

theorem covering_issues_by_start:
  "compute_segments tx (filter_issues issues b1 b2 b3) = Inr segs \<Longrightarrow>
   \<forall>s\<in>set segs. sorted_wrt start_then_index (seg_issues s) \<and>
     (\<forall>hr\<in>set (seg_issues s). hr_start (hd (seg_issues s)) \<le> hr_start hr)"
proof
  fix s
  assume run: "compute_segments tx (filter_issues issues b1 b2 b3) = Inr segs"
    and s: "s \<in> set segs"
  let ?hrs = "sort_key hr_start (List.map_filter
      (located_range tx (fst (build_position_map tx)) (snd (build_position_map tx)))
      (filter_issues issues b1 b2 b3))"
  from run have "segs = build_segments tx ?hrs"
    by (simp add: compute_segments_eq)
  with s have cov: "seg_issues s = filter (covers (seg_start s)) ?hrs"
    by (simp add: build_segments_issues)
  have "sorted_wrt start_then_index ?hrs"
    by (rule sort_start_then_index) (rule pipeline_ranges_indexed)
  then have srt: "sorted_wrt start_then_index (seg_issues s)"
    unfolding cov by (rule sorted_wrt_filter)
  have "hr_start (hd (seg_issues s)) \<le> hr_start hr" if "hr \<in> set (seg_issues s)" for hr
  proof (cases "seg_issues s")
    case Nil
    with that show ?thesis by simp
  next
    case (Cons x xs)
    with srt that show ?thesis
      by (auto dest: start_then_index_le)
  qed
  with srt show "sorted_wrt start_then_index (seg_issues s) \<and>
      (\<forall>hr\<in>set (seg_issues s). hr_start (hd (seg_issues s)) \<le> hr_start hr)"
    by blast
qed

lemma abcdef_segments:
  "compute_segments (str ''abcdef'')
     (filter_issues
        [\<lparr>i_type = None, i_excerpt = Some (str ''cd''), i_issue = None, i_sources = None\<rparr>,
         \<lparr>i_type = None, i_excerpt = Some (str ''bcde''), i_issue = None, i_sources = None\<rparr>]
        True True True) =
   Inr [\<lparr>seg_start = 0, seg_end = 1, seg_text = str ''a'', seg_issues = []\<rparr>,
        \<lparr>seg_start = 1, seg_end = 2, seg_text = str ''b'', seg_issues =
           [\<lparr>hr_start = 1, hr_end = 5, issue_index = 1, issue_type = str ''questionable'',
             explanation = str ''No explanation'', sources = []\<rparr>]\<rparr>,
        \<lparr>seg_start = 2, seg_end = 4, seg_text = str ''cd'', seg_issues =
           [\<lparr>hr_start = 1, hr_end = 5, issue_index = 1, issue_type = str ''questionable'',
             explanation = str ''No explanation'', sources = []\<rparr>,
            \<lparr>hr_start = 2, hr_end = 4, issue_index = 0, issue_type = str ''questionable'',
             explanation = str ''No explanation'', sources = []\<rparr>]\<rparr>,
        \<lparr>seg_start = 4, seg_end = 5, seg_text = str ''e'', seg_issues =
           [\<lparr>hr_start = 1, hr_end = 5, issue_index = 1, issue_type = str ''questionable'',
             explanation = str ''No explanation'', sources = []\<rparr>]\<rparr>,
        \<lparr>seg_start = 5, seg_end = 6, seg_text = str ''f'', seg_issues = []\<rparr>]"
proof -
  let ?tx = "str ''abcdef''"
  let ?i0 = "\<lparr>i_type = None, i_excerpt = Some (str ''cd''), i_issue = None, i_sources = None\<rparr>"
  let ?i1 = "\<lparr>i_type = None, i_excerpt = Some (str ''bcde''), i_issue = None, i_sources = None\<rparr>"
  have fis: "filter_issues [?i0, ?i1] True True True = [(0, ?i0), (1, ?i1)]"
    by (simp add: filter_issues_def hidden_def enumerate_eq_zip upt_rec)
  have s0: "strip (str ''cd'') = str ''cd''" and s1: "strip (str ''bcde'') = str ''bcde''"
    by (simp_all add: strip_def str_def is_space_def)
  have l0: "locate ?tx logical pm (str ''cd'') = Inr (Some 2, Some 4)" for logical pm
    by (simp add: locate_def str_find_def str_def)
  have l1: "locate ?tx logical pm (str ''bcde'') = Inr (Some 1, Some 5)" for logical pm
    by (simp add: locate_def str_find_def str_def)
  have ne: "str ''cd'' \<noteq> []" "str ''bcde'' \<noteq> []"
    by (simp_all add: str_def)
  let ?h0 = "\<lparr>hr_start = 2, hr_end = 4, issue_index = 0, issue_type = str ''questionable'',
      explanation = str ''No explanation'', sources = []\<rparr>"
  let ?h1 = "\<lparr>hr_start = 1, hr_end = 5, issue_index = 1, issue_type = str ''questionable'',
      explanation = str ''No explanation'', sources = []\<rparr>"
  have r0: "located_range ?tx logical pm (k, ?i0) =
      Some \<lparr>hr_start = 2, hr_end = 4, issue_index = k, issue_type = str ''questionable'',
        explanation = str ''No explanation'', sources = []\<rparr>" for logical pm k
    using ne by (simp add: located_range_def get_excerpt_def s0 l0 get_type_def get_issue_def
        get_sources_def)
  have r1: "located_range ?tx logical pm (k, ?i1) =
      Some \<lparr>hr_start = 1, hr_end = 5, issue_index = k, issue_type = str ''questionable'',
        explanation = str ''No explanation'', sources = []\<rparr>" for logical pm k
    using ne by (simp add: located_range_def get_excerpt_def s1 l1 get_type_def get_issue_def
        get_sources_def)
  have srt: "sort_key hr_start [?h0, ?h1] = [?h1, ?h0]"
    by simp
  have "build_segments ?tx [?h1, ?h0] =
      [\<lparr>seg_start = 0, seg_end = 1, seg_text = str ''a'', seg_issues = []\<rparr>,
       \<lparr>seg_start = 1, seg_end = 2, seg_text = str ''b'', seg_issues = [?h1]\<rparr>,
       \<lparr>seg_start = 2, seg_end = 4, seg_text = str ''cd'', seg_issues = [?h1, ?h0]\<rparr>,
       \<lparr>seg_start = 4, seg_end = 5, seg_text = str ''e'', seg_issues = [?h1]\<rparr>,
       \<lparr>seg_start = 5, seg_end = 6, seg_text = str ''f'', seg_issues = []\<rparr>]"
    by (simp add: build_segments_def Let_def boundaries_def get_issues_build covers_def
        slice_def str_def)
  then show ?thesis
    by (simp add: compute_segments_eq fis List.map_filter_simps r0 r1 srt)
qed

theorem covering_issues_by_index_counterexample:
  "map_sum id (map (\<lambda>s. (seg_start s, seg_end s, map issue_index (seg_issues s))))
     (compute_segments (str ''abcdef'')
        (filter_issues
           [\<lparr>i_type = None, i_excerpt = Some (str ''cd''), i_issue = None, i_sources = None\<rparr>,
            \<lparr>i_type = None, i_excerpt = Some (str ''bcde''), i_issue = None, i_sources = None\<rparr>]
           True True True)) =
   Inr [(0, 1, []), (1, 2, [1]), (2, 4, [1, 0]), (4, 5, [1]), (5, 6, [])] \<and>
   \<not> sorted [1, 0 :: nat]"
  by (simp add: abcdef_segments)

theorem covering_issues_by_start_witness:
  "sorted_wrt start_then_index
     [\<lparr>hr_start = 1, hr_end = 5, issue_index = 1, issue_type = str ''questionable'',
       explanation = str ''No explanation'', sources = []\<rparr>,
      \<lparr>hr_start = 2, hr_end = 4, issue_index = 0, issue_type = str ''questionable'',
       explanation = str ''No explanation'', sources = []\<rparr>]"
proof -
  let ?h0 = "\<lparr>hr_start = 2, hr_end = 4, issue_index = 0, issue_type = str ''questionable'',
      explanation = str ''No explanation'', sources = []\<rparr>"
  let ?h1 = "\<lparr>hr_start = 1, hr_end = 5, issue_index = 1, issue_type = str ''questionable'',
      explanation = str ''No explanation'', sources = []\<rparr>"
  let ?s = "\<lparr>seg_start = 2, seg_end = 4, seg_text = str ''cd'', seg_issues = [?h1, ?h0]\<rparr>"
  from covering_issues_by_start [OF abcdef_segments]
  have "sorted_wrt start_then_index (seg_issues ?s)"
    by simp
  then show ?thesis by simp
qed

section \<open>The metadata of a highlighted segment\<close>

text \<open>
  C7. For a segment whose covering list is \<open>primary\<close> followed by \<open>rest\<close>, the string that
  \<open>highlight_text\<close> appends is the \<open>mark\<close> element in which \<open>background-color\<close> is the
  colour of the type of \<open>primary\<close>; \<open>border\<close> is transparent when \<open>rest\<close> is empty and
  otherwise has the border colour of the type of the first issue of \<open>rest\<close> alone; and
  \<open>data-badge-text\<close> is the index of \<open>primary\<close> plus one when \<open>rest\<close> is empty and
  otherwise the number of covering issues.
\<close>

theorem mark_metadata:
  assumes "seg_issues segment = primary # rest"
  shows "html_part title segment =
     (let ind = nl @ replicate 16 (cp CHR '' '');
          covering = primary # rest;
          tooltip_text =
            join nl (concat (map (tooltip_parts title (length covering)) (enumerate 0 covering)));
          background = dict_get colors (issue_type primary) (str ''#fff4cc'');
          border =
            (case rest of
               [] \<Rightarrow> str ''2px solid transparent''
             | second # others \<Rightarrow>
                 str ''2px solid '' @ dict_get border_colors (issue_type second) (str ''#333''));
          badge =
            (if rest = [] then str_of_nat (issue_index primary + 1)
             else str_of_nat (length covering))
      in str ''<mark'' @
         ind @ str ''class='' @ dq @ str ''fact-issue'' @ dq @
         ind @ str ''data-issue-ids='' @ dq @
           join (str '','') (map (\<lambda>hr. str_of_nat (issue_index hr)) covering) @ dq @
         ind @ str ''data-tooltip='' @ dq @
           replace_char 39 (str ''&#39;'') (replace_char 34 (str ''&quot;'') tooltip_text) @ dq @
         ind @ str ''data-badge-text='' @ dq @ badge @ dq @
         ind @ str ''data-badge-type='' @ dq @
           (if rest = [] then str ''single'' else str ''multiple'') @ dq @
         ind @ str ''style='' @ dq @ str ''background-color: '' @ background @
           str ''; color: #000; padding: 2px 4px; border-radius: 3px; cursor: pointer; border: '' @
           border @ str ''; transition: all 0.2s ease;'' @ dq @
         ind @ str ''>'' @ seg_text segment @ str ''</mark>'')"
proof -
  let ?m = "make_mark title segment"
  have part: "html_part title segment = mark_html ?m"
    using assms by (simp add: html_part_def)
  have bg: "bg_color ?m = dict_get colors (issue_type primary) (str ''#fff4cc'')"
    using assms by (simp add: make_mark_def Let_def)
  have border: "border_style ?m =
      (case rest of
         [] \<Rightarrow> str ''2px solid transparent''
       | second # others \<Rightarrow>
           str ''2px solid '' @ dict_get border_colors (issue_type second) (str ''#333''))"
    using assms by (cases rest) (simp_all add: make_mark_def Let_def)
  have badge: "badge_text ?m =
      (if rest = [] then str_of_nat (issue_index primary + 1)
       else str_of_nat (length (primary # rest)))"
    using assms by (simp add: make_mark_def Let_def del: str_of_nat.simps)
  have btype: "badge_type ?m = (if rest = [] then str ''single'' else str ''multiple'')"
    using assms by (simp add: make_mark_def Let_def)
  have ids: "issue_ids ?m =
      join (str '','') (map (\<lambda>hr. str_of_nat (issue_index hr)) (primary # rest))"
    using assms by (simp add: make_mark_def Let_def del: str_of_nat.simps)
  have tip: "escaped_tooltip ?m =
      replace_char 39 (str ''&#39;'') (replace_char 34 (str ''&quot;'')
        (join nl (concat (map (tooltip_parts title (length (primary # rest)))
                            (enumerate 0 (primary # rest))))))"
    using assms by (simp add: make_mark_def Let_def del: str_of_nat.simps)
  have txt': "mark_text ?m = seg_text segment"
    by (simp add: make_mark_def Let_def)
  show ?thesis
    unfolding part mark_html_def Let_def bg border badge btype ids tip txt' ..
qed


theorem mark_metadata_witness:
  "html_part id
     \<lparr>seg_start = 2, seg_end = 4, seg_text = str ''cd'', seg_issues =
        [\<lparr>hr_start = 1, hr_end = 5, issue_index = 1, issue_type = str ''misleading'',
          explanation = str ''wrong'', sources = []\<rparr>,
         \<lparr>hr_start = 2, hr_end = 4, issue_index = 0, issue_type = str ''incomplete'',
          explanation = str ''gap'', sources = []\<rparr>]\<rparr> =
   str ''<mark'' @
   nl @ replicate 16 (cp CHR '' '') @ str ''class='' @ dq @ str ''fact-issue'' @ dq @
   nl @ replicate 16 (cp CHR '' '') @ str ''data-issue-ids='' @ dq @ str ''1,0'' @ dq @
   nl @ replicate 16 (cp CHR '' '') @ str ''data-tooltip='' @ dq @
     str ''Issue #2 (misleading):'' @ nl @ str ''wrong'' @ nl @ nl @ str ''---'' @ nl @ nl @
     str ''Issue #1 (incomplete):'' @ nl @ str ''gap'' @ dq @
   nl @ replicate 16 (cp CHR '' '') @ str ''data-badge-text='' @ dq @ str ''2'' @ dq @
   nl @ replicate 16 (cp CHR '' '') @ str ''data-badge-type='' @ dq @ str ''multiple'' @ dq @
   nl @ replicate 16 (cp CHR '' '') @ str ''style='' @ dq @ str ''background-color: '' @
     str ''#ffcccc'' @
     str ''; color: #000; padding: 2px 4px; border-radius: 3px; cursor: pointer; border: '' @
     str ''2px solid #0066cc'' @ str ''; transition: all 0.2s ease;'' @ dq @
   nl @ replicate 16 (cp CHR '' '') @ str ''>'' @ str ''cd'' @ str ''</mark>''"
proof -
  let ?p = "\<lparr>hr_start = 1, hr_end = 5, issue_index = 1, issue_type = str ''misleading'',
      explanation = str ''wrong'', sources = []\<rparr>"
  let ?q = "\<lparr>hr_start = 2, hr_end = 4, issue_index = 0, issue_type = str ''incomplete'',
      explanation = str ''gap'', sources = []\<rparr>"
  let ?s = "\<lparr>seg_start = 2, seg_end = 4, seg_text = str ''cd'', seg_issues = [?p, ?q]\<rparr>"
  have "seg_issues ?s = ?p # [?q]" by simp
  from mark_metadata [OF this, of id]
  show ?thesis
    by (simp add: Let_def str_def nl_def dq_def dict_get_def colors_def border_colors_def
        tooltip_parts_def replace_char_def)
qed

section \<open>Issues that are not located\<close>

lemma sorted_issues_all:
  "i < length issues \<Longrightarrow> (i, issues ! i) \<in> set (sorted_issues issues)"
  by (simp add: sorted_issues_def in_set_enumerate_eq)

text \<open>
  C8. Let the trimmed excerpt of the issue at index \<open>i\<close> be empty, or occur nowhere in
  the original text while its logical form is empty or occurs nowhere in the logical
  text. Then the issue gets no range; no range that \<open>highlight_text\<close> locates and no covering list of a segment has
  the index \<open>i\<close>; \<open>highlight_text\<close> raises nothing; and the caller's list of issues
  still holds the issue at \<open>i\<close>.
\<close>

theorem unlocated_issue_not_highlighted:
  assumes i: "i < length issues"
    and e: "e = strip (get_excerpt (issues ! i))"
    and logical: "logical = fst (build_position_map tx)" and pm: "pm = snd (build_position_map tx)"
    and bad: "e = [] \<or>
              ((\<forall>q. \<not> occurs_at tx e q) \<and>
               (fst (build_position_map e) = [] \<or>
                (\<forall>q. \<not> occurs_at logical (fst (build_position_map e)) q)))"
  shows "located_range tx logical pm (i, issues ! i) = None \<and>
         (\<exists>hrs. find_ranges tx logical pm (filter_issues issues b1 b2 b3) [] = Inr hrs \<and>
                (\<forall>hr\<in>set hrs. issue_index hr \<noteq> i)) \<and>
         (\<exists>segs. compute_segments tx (filter_issues issues b1 b2 b3) = Inr segs \<and>
                 (\<forall>s\<in>set segs. \<forall>hr\<in>set (seg_issues s). issue_index hr \<noteq> i)) \<and>
         (\<exists>html. highlight_text title tx issues b1 b2 b3 = Inr html) \<and>
         (i, issues ! i) \<in> set (sorted_issues issues)"
proof -
  let ?fis = "filter_issues issues b1 b2 b3"
  let ?hrs = "List.map_filter (located_range tx logical pm) ?fis"
  have bpm: "build_position_map tx = (logical, pm)"
    by (simp add: logical pm)
  have none: "located_range tx logical pm (i, issues ! i) = None"
  proof (cases "e = []")
    case True
    with e show ?thesis by (simp add: located_range_def)
  next
    case False
    with bad have "\<forall>q. \<not> occurs_at tx e q"
      and rest: "fst (build_position_map e) = [] \<or>
        (\<forall>q. \<not> occurs_at logical (fst (build_position_map e)) q)"
      by blast+
    then have nf: "str_find tx e = None"
      by (simp add: not_occurs_find_None)
    have "locate tx logical pm e = Inr (None, None)"
    proof (cases "fst (build_position_map e) = []")
      case True
      with nf show ?thesis by (rule locate_fallback_empty)
    next
      case False
      with rest have "str_find logical (fst (build_position_map e)) = None"
        by (simp add: not_occurs_find_None)
      with nf show ?thesis by (rule locate_fallback_none)
    qed
    with e show ?thesis by (simp add: located_range_def Let_def)
  qed
  have other: "issue_index hr \<noteq> i" if "hr \<in> set ?hrs" for hr
  proof
    assume idx: "issue_index hr = i"
    from that obtain fi where fi: "fi \<in> set ?fis" and lr: "located_range tx logical pm fi = Some hr"
      by (auto simp: map_filter_set)
    obtain j x where jx: "fi = (j, x)" by (cases fi)
    from lr idx have "fst fi = i" by (simp add: located_range_index)
    with jx have "j = i" by simp
    with fi jx have "(i, x) \<in> set ?fis" by simp
    then have "x = issues ! i" by (simp add: filter_issues_set)
    with jx \<open>j = i\<close> have "fi = (i, issues ! i)" by simp
    with lr none show False by simp
  qed
  have ranges: "find_ranges tx logical pm ?fis [] = Inr ?hrs"
    using find_ranges_eq [OF bpm, of ?fis "[]"] by simp
  have segs: "compute_segments tx ?fis = Inr (build_segments tx (sort_key hr_start ?hrs))"
    by (simp add: compute_segments_eq logical pm)
  have "issue_index hr \<noteq> i"
    if "s \<in> set (build_segments tx (sort_key hr_start ?hrs))" and "hr \<in> set (seg_issues s)"
    for s hr
  proof -
    from that have "hr \<in> set ?hrs"
      by (simp add: build_segments_issues)
    then show ?thesis by (rule other)
  qed
  with none other ranges segs highlight_text_total [of title tx issues b1 b2 b3]
    sorted_issues_all [OF i]
  show ?thesis by blast
qed


theorem unlocated_issue_not_highlighted_witness:
  "strip (get_excerpt \<lparr>i_type = None, i_excerpt = Some (str ''zz''), i_issue = None,
                       i_sources = None\<rparr>) = str ''zz'' \<and>
   str_find (str ''abc'') (str ''zz'') = None \<and>
   str_find (fst (build_position_map (str ''abc''))) (fst (build_position_map (str ''zz''))) =
     None \<and>
   located_range (str ''abc'') (fst (build_position_map (str ''abc'')))
     (snd (build_position_map (str ''abc'')))
     (0, \<lparr>i_type = None, i_excerpt = Some (str ''zz''), i_issue = None, i_sources = None\<rparr>) =
     None \<and>
   (\<exists>html. highlight_text id (str ''abc'')
      [\<lparr>i_type = None, i_excerpt = Some (str ''zz''), i_issue = None, i_sources = None\<rparr>]
      True True True = Inr html)"
proof -
  let ?tx = "str ''abc''"
  let ?issue = "\<lparr>i_type = None, i_excerpt = Some (str ''zz''), i_issue = None,
      i_sources = None\<rparr>"
  have i: "0 < length [?issue]" by simp
  have st: "strip (get_excerpt ?issue) = str ''zz''"
    by (simp add: strip_def get_excerpt_def str_def is_space_def)
  then have e: "str ''zz'' = strip (get_excerpt ([?issue] ! 0))"
    by simp
  have bt: "build_position_map ?tx = (?tx, [0, 1, 2])"
    and be: "build_position_map (str ''zz'') = (str ''zz'', [0, 1])"
    by (simp_all add: build_position_map_def build_loop.simps str_def url_match_def is_space_def)
  have n1: "str_find ?tx (str ''zz'') = None"
    by (simp add: str_find_def str_def)
  have n2: "str_find (fst (build_position_map ?tx)) (fst (build_position_map (str ''zz''))) = None"
    by (simp add: bt be) (simp add: str_find_def str_def)
  from n1 n2 have bad: "str ''zz'' = [] \<or>
      ((\<forall>q. \<not> occurs_at ?tx (str ''zz'') q) \<and>
       (fst (build_position_map (str ''zz'')) = [] \<or>
        (\<forall>q. \<not> occurs_at (fst (build_position_map ?tx))
               (fst (build_position_map (str ''zz''))) q)))"
    by (simp add: str_find_None)
  from unlocated_issue_not_highlighted [OF i e refl refl bad, of True True True id]
  have "located_range ?tx (fst (build_position_map ?tx)) (snd (build_position_map ?tx))
      (0, [?issue] ! 0) = None"
    and "\<exists>html. highlight_text id ?tx [?issue] True True True = Inr html"
    by blast+
  with st n1 n2 show ?thesis by simp
qed

section \<open>An empty list of issues\<close>

text \<open>
  C9. For every text and every setting of the three switches, \<open>highlight_text\<close> on an
  empty list of issues raises nothing and returns the text unchanged, which is what a
  single plain segment holding the whole text renders to.
\<close>

theorem highlight_text_no_issues:
  "highlight_text title tx [] show_misleading show_incomplete show_questionable = Inr tx \<and>
   html_part title \<lparr>seg_start = 0, seg_end = length tx, seg_text = tx, seg_issues = []\<rparr> = tx"
  by (simp add: highlight_text_def html_part_def)

end
